theory Spec2Isabelle
  imports Main "HOL-Library.Word"
begin

section \<open>Conventions shared by the four cache engines\<close>

text \<open>
  The Go sources build every engine from heap-allocated nodes linked by pointers.  The
  embedding keeps that shape.  An address is a natural number, a pointer is an optional
  address with \<open>None\<close> for \<open>nil\<close>, and a heap is a total function from addresses to
  node records (a Go pointer is either \<open>nil\<close> or valid, so there is no dangling case).
  Allocation takes the address held by a counter of the engine and increments it.

  A Go panic (an explicit \<open>panic\<close>, a nil-pointer dereference, an index out of range, a
  write to a nil map) is a value of type \<open>error\<close>; an operation that can panic returns
  \<open>error + result\<close>, with \<open>Inl\<close> for the panic.  The zero value of the generic key type
  \<open>T\<close> is passed as a parameter \<open>zk\<close> where the source relies on it.
\<close>

type_synonym addr = nat
type_synonym ptr = "addr option"

datatype error =
    NilDeref
  | Panic string
  | IndexOutOfRange
  | NilMapWrite
  | BadSliceLen

section \<open>SIEVE (sieve.go)\<close>

text \<open>
  The struct \<open>Node[T]\<close>.  The fields \<open>next\<close>, \<open>prev\<close> and \<open>value\<close> are spelled
  \<open>nxt\<close>, \<open>prv\<close> and \<open>val\<close>; \<open>value\<close> has type \<open>any\<close>, whose zero value is \<open>nil\<close>.
\<close>

record ('k, 'v) Node =
  key :: 'k
  end_identifier :: int
  nxt :: ptr
  prv :: ptr
  val :: "'v option"
  visited :: bool

text \<open>
  The struct \<open>Sieve[T]\<close>.  \<open>FifoQueue\<close> is a pointer to a struct of two node pointers
  that are set once by \<open>NewFifoQueue\<close>; they are the fields \<open>head\<close> and \<open>tail\<close> here.
  \<open>heap\<close> and \<open>free\<close> are the node store and its allocation counter.
\<close>

record ('k, 'v) Sieve =
  hand :: ptr
  Capacity :: int
  Nodes :: "'k \<rightharpoonup> addr"
  head :: addr
  tail :: addr
  heap :: "addr \<Rightarrow> ('k, 'v) Node"
  free :: addr

definition zero_node :: "'k \<Rightarrow> ('k, 'v) Node" where
  "zero_node zk =
     \<lparr>key = zk, end_identifier = 0, nxt = None, prv = None, val = None, visited = False\<rparr>"

definition NewNode :: "'k \<Rightarrow> 'v option \<Rightarrow> ('k, 'v) Node" where
  "NewNode zk v = (zero_node zk)\<lparr>val := v, visited := False\<rparr>"

text \<open>\<open>NewSieve\<close> with \<open>NewFifoQueue\<close> inlined: the head sentinel is allocated at address 0
  and the tail sentinel at address 1.\<close>

definition NewSieve :: "'k \<Rightarrow> int \<Rightarrow> error + ('k, 'v) Sieve" where
  "NewSieve zk cap =
     (if cap \<le> 0 then Inl (Panic ''capacity has to be greater than 0'')
      else Inr \<lparr>hand = None, Capacity = cap, Nodes = Map.empty, head = 0, tail = 1,
                heap = (\<lambda>_. zero_node zk)
                  (0 := (zero_node zk)\<lparr>end_identifier := 1, nxt := Some 1\<rparr>,
                   1 := (zero_node zk)\<lparr>end_identifier := - 1, prv := Some 0\<rparr>),
                free = 2\<rparr>)"

definition IsEmpty :: "('k, 'v) Sieve \<Rightarrow> bool" where
  "IsEmpty s = (card (dom (Nodes s)) = 0)"

definition getHand :: "('k, 'v) Sieve \<Rightarrow> ptr" where
  "getHand s = hand s"

definition sieve_Get :: "('k, 'v) Sieve \<Rightarrow> 'k \<Rightarrow> ('k, 'v) Sieve \<times> bool" where
  "sieve_Get s k =
     (case Nodes s k of
        None \<Rightarrow> (s, False)
      | Some a \<Rightarrow> (s\<lparr>heap := (heap s)(a := (heap s a)\<lparr>visited := True\<rparr>)\<rparr>, True))"

definition getHead :: "('k, 'v) Sieve \<Rightarrow> error + addr" where
  "getHead s =
     (if end_identifier (heap s (head s)) \<noteq> 1
      then Inl (Panic ''head is not initialized properly'')
      else Inr (head s))"

definition getTail :: "('k, 'v) Sieve \<Rightarrow> error + addr" where
  "getTail s =
     (if end_identifier (heap s (tail s)) \<noteq> - 1
      then Inl (Panic ''tail is not initialized properly'')
      else Inr (tail s))"

definition deleteNode :: "('k, 'v) Sieve \<Rightarrow> ptr \<Rightarrow> error + ('k, 'v) Sieve" where
  "deleteNode s node =
     (case node of
        None \<Rightarrow> Inl NilDeref
      | Some n \<Rightarrow>
          if end_identifier (heap s n) = - 1 \<or> end_identifier (heap s n) = 1 then Inr s
          else (case nxt (heap s n) of
                  None \<Rightarrow> Inr s
                | Some nx \<Rightarrow>
                    (case prv (heap s n) of
                       None \<Rightarrow> Inr s
                     | Some pv \<Rightarrow>
                         let h1 = (heap s)(pv := (heap s pv)\<lparr>nxt := Some nx\<rparr>);
                             h2 = h1(nx := (h1 nx)\<lparr>prv := Some pv\<rparr>)
                         in Inr (s\<lparr>heap := h2\<rparr>))))"

definition insertNode ::
  "'k \<Rightarrow> ('k, 'v) Sieve \<Rightarrow> 'v option \<Rightarrow> ptr \<Rightarrow> ptr \<Rightarrow> error + (('k, 'v) Sieve \<times> addr)" where
  "insertNode zk s v prev next =
     (let curr = free s;
          h0 = (heap s)(curr := NewNode zk v);
          h1 = h0(curr := (h0 curr)\<lparr>nxt := next\<rparr>)
      in case next of
           None \<Rightarrow> Inl NilDeref
         | Some nx \<Rightarrow>
             let h2 = h1(nx := (h1 nx)\<lparr>prv := Some curr\<rparr>)
             in (case prev of
                   None \<Rightarrow> Inl NilDeref
                 | Some pv \<Rightarrow>
                     let h3 = h2(pv := (h2 pv)\<lparr>nxt := Some curr\<rparr>);
                         h4 = h3(curr := (h3 curr)\<lparr>prv := Some pv\<rparr>)
                     in Inr (s\<lparr>heap := h4, free := Suc curr\<rparr>, curr)))"

text \<open>
  The loop \<open>for hand.visited { ... }\<close> of \<open>Insert\<close>.  Nothing in the Go text bounds it, so
  it is a partial function: \<open>None\<close> is a run that never leaves the loop, \<open>Some (Inl e)\<close>
  a panic, \<open>Some (Inr (s, a))\<close> the exit with the hand at node \<open>a\<close>.
\<close>

partial_function (option) sweep ::
  "('k, 'v) Sieve \<Rightarrow> ptr \<Rightarrow> (error + (('k, 'v) Sieve \<times> addr)) option" where
  "sweep s hnd =
     (case hnd of
        None \<Rightarrow> Some (Inl NilDeref)
      | Some a \<Rightarrow>
          if visited (heap s a) then
            (let s1 = s\<lparr>heap := (heap s)(a := (heap s a)\<lparr>visited := False\<rparr>)\<rparr>
             in case prv (heap s1 a) of
                  None \<Rightarrow> Some (Inl NilDeref)
                | Some b \<Rightarrow>
                    if end_identifier (heap s1 b) = 1 then
                      (case getTail s1 of
                         Inl e \<Rightarrow> Some (Inl e)
                       | Inr t \<Rightarrow> sweep s1 (prv (heap s1 t)))
                    else sweep s1 (Some b))
          else Some (Inr (s, a)))"

text \<open>The eviction block of \<open>Insert\<close>, entered when \<open>len(sieve.Nodes) == sieve.Capacity\<close>.\<close>

definition evict_block :: "('k, 'v) Sieve \<Rightarrow> (error + ('k, 'v) Sieve) option" where
  "evict_block s =
     (case (case getHand s of
              None \<Rightarrow> getTail s
            | Some a \<Rightarrow> if end_identifier (heap s a) = 1 then getTail s else Inr a) of
        Inl e \<Rightarrow> Some (Inl e)
      | Inr h0 \<Rightarrow>
          (case sweep s (prv (heap s h0)) of
             None \<Rightarrow> None
           | Some (Inl e) \<Rightarrow> Some (Inl e)
           | Some (Inr (s1, a)) \<Rightarrow>
               (let h1 = prv (heap s1 a);
                    s2 = s1\<lparr>hand := h1\<rparr>
                in case h1 of
                     None \<Rightarrow> Some (Inl NilDeref)
                   | Some p \<Rightarrow>
                       (case nxt (heap s2 p) of
                          None \<Rightarrow> Some (Inl NilDeref)
                        | Some nodeToBeDeleted \<Rightarrow>
                            (case deleteNode s2 (Some nodeToBeDeleted) of
                               Inl e \<Rightarrow> Some (Inl e)
                             | Inr s3 \<Rightarrow>
                                 Some (Inr (s3\<lparr>Nodes :=
                                   (Nodes s3)(key (heap s3 nodeToBeDeleted) := None)\<rparr>)))))))"

text \<open>The rest of \<open>Insert\<close>, after the eviction block: a new node is linked right after the
  head sentinel, given the key, entered in the index, and its visited bit is reset.\<close>

definition link_block ::
  "'k \<Rightarrow> ('k, 'v) Sieve \<Rightarrow> 'k \<Rightarrow> 'v option \<Rightarrow> error + ('k, 'v) Sieve" where
  "link_block zk s k d =
     (case getHead s of
        Inl e \<Rightarrow> Inl e
      | Inr hd_a \<Rightarrow>
          (case insertNode zk s d (Some hd_a) (nxt (heap s hd_a)) of
             Inl e \<Rightarrow> Inl e
           | Inr (s2, currNode) \<Rightarrow>
               (let h1 = (heap s2)(currNode := (heap s2 currNode)\<lparr>key := k\<rparr>);
                    s3 = s2\<lparr>heap := h1, Nodes := (Nodes s2)(k \<mapsto> currNode)\<rparr>;
                    h2 = (heap s3)(currNode := (heap s3 currNode)\<lparr>visited := False\<rparr>)
                in Inr (s3\<lparr>heap := h2\<rparr>))))"

definition sieve_Insert ::
  "'k \<Rightarrow> ('k, 'v) Sieve \<Rightarrow> 'k \<Rightarrow> 'v option \<Rightarrow> (error + ('k, 'v) Sieve) option" where
  "sieve_Insert zk s k d =
     (case (if int (card (dom (Nodes s))) = Capacity s then evict_block s else Some (Inr s)) of
        None \<Rightarrow> None
      | Some (Inl e) \<Rightarrow> Some (Inl e)
      | Some (Inr s1) \<Rightarrow> Some (link_block zk s1 k d))"

text \<open>A public operation of the SIEVE engine, and a run of operations from a state; a run
  stops at the first panic, and is \<open>None\<close> when an operation does not return.\<close>

datatype ('k, 'v) sieve_op = SInsert 'k "'v option" | SGet 'k

fun sieve_run ::
  "'k \<Rightarrow> ('k, 'v) Sieve \<Rightarrow> ('k, 'v) sieve_op list \<Rightarrow> (error + ('k, 'v) Sieve) option" where
  "sieve_run zk s [] = Some (Inr s)"
| "sieve_run zk s (SGet k # ops) = sieve_run zk (fst (sieve_Get s k)) ops"
| "sieve_run zk s (SInsert k d # ops) =
     (case sieve_Insert zk s k d of
        None \<Rightarrow> None
      | Some (Inl e) \<Rightarrow> Some (Inl e)
      | Some (Inr s1) \<Rightarrow> sieve_run zk s1 ops)"

section \<open>LRU-K (package lrukgo, the version with the cleanup sweeper)\<close>

text \<open>
  Timestamps are Go \<open>int64\<close> values: 64-bit words, subtracted and added with wrap-around and
  compared as signed numbers (\<open>sint\<close>).  \<open>K\<close> and \<open>Cap\<close> are Go \<open>int\<close>s.  The structs \<open>Last\<close>
  and \<open>History\<close> hold one map each, which is what the fields \<open>LAST\<close> and \<open>HIST\<close> are here.
  The mutex and \<open>CleanupInterval\<close> play no part in what an operation computes and are left
  out; the current time \<open>time.Now().Unix()\<close> is the argument \<open>t\<close> of an operation.
\<close>

type_synonym int64 = "64 word"
type_synonym byte = "8 word"

record 'k LRU_K =
  K :: int
  HIST :: "'k \<rightharpoonup> int64 list"
  LAST :: "'k \<rightharpoonup> int64"
  CRP :: int64
  RIP :: int64
  Buffer :: "'k \<rightharpoonup> byte list"
  Cap :: int

definition Last_get :: "('k \<rightharpoonup> int64) \<Rightarrow> 'k \<Rightarrow> error + int64" where
  "Last_get m k =
     (case m k of None \<Rightarrow> Inl (Panic ''key not present'') | Some t \<Rightarrow> Inr t)"

definition Last_set :: "('k \<rightharpoonup> int64) \<Rightarrow> 'k \<Rightarrow> int64 \<Rightarrow> ('k \<rightharpoonup> int64)" where
  "Last_set m k time = m(k \<mapsto> time)"

definition Last_delete :: "('k \<rightharpoonup> int64) \<Rightarrow> 'k \<Rightarrow> ('k \<rightharpoonup> int64)" where
  "Last_delete m k = m(k := None)"

definition Hist_delete :: "('k \<rightharpoonup> int64 list) \<Rightarrow> 'k \<Rightarrow> ('k \<rightharpoonup> int64 list)" where
  "Hist_delete hist k = hist(k := None)"

definition Hist_get :: "('k \<rightharpoonup> int64 list) \<Rightarrow> 'k \<Rightarrow> int \<Rightarrow> error + int64" where
  "Hist_get hist k index =
     (case hist k of
        None \<Rightarrow> Inl (Panic ''key not present'')
      | Some reference_times \<Rightarrow>
          if 0 \<le> index \<and> index < int (length reference_times)
          then Inr (reference_times ! nat index)
          else Inl IndexOutOfRange)"

text \<open>\<open>make([]int64, k)\<close> panics for a negative length.\<close>

definition Hist_init ::
  "('k \<rightharpoonup> int64 list) \<Rightarrow> 'k \<Rightarrow> int \<Rightarrow> error + ('k \<rightharpoonup> int64 list)" where
  "Hist_init hist k n =
     (if n < 0 then Inl BadSliceLen else Inr (hist(k \<mapsto> replicate (nat n) 0)))"

definition Hist_exists :: "('k \<rightharpoonup> int64 list) \<Rightarrow> 'k \<Rightarrow> bool" where
  "Hist_exists hist k = (hist k \<noteq> None)"

definition Hist_set ::
  "('k \<rightharpoonup> int64 list) \<Rightarrow> 'k \<Rightarrow> int \<Rightarrow> int64 \<Rightarrow> error + ('k \<rightharpoonup> int64 list)" where
  "Hist_set hist k index time =
     (case hist k of
        None \<Rightarrow> Inl (Panic ''key not present'')
      | Some reference_times \<Rightarrow>
          if 0 \<le> index \<and> index < int (length reference_times)
          then Inr (hist(k \<mapsto> reference_times[nat index := time]))
          else Inl IndexOutOfRange)"

text \<open>
  \<open>FindVictim\<close> ranges over the map \<open>lru.Buffer\<close>, in an order Go leaves unspecified.  The
  order is the argument \<open>order\<close>: the keys of the buffer as the runtime enumerates them.
  The loop state is the pair of \<open>min\<close> and \<open>victim\<close>; \<open>&&\<close> evaluates \<open>HIST.get\<close> only when
  its left operand holds.
\<close>

fun FindVictim_loop ::
  "'k LRU_K \<Rightarrow> int64 \<Rightarrow> 'k list \<Rightarrow> int64 \<times> 'k \<Rightarrow> error + (int64 \<times> 'k)" where
  "FindVictim_loop lru t [] (mn, victim) = Inr (mn, victim)"
| "FindVictim_loop lru t (page # rest) (mn, victim) =
     (case Last_get (LAST lru) page of
        Inl e \<Rightarrow> Inl e
      | Inr time_of_last_reference \<Rightarrow>
          if sint (CRP lru) < sint (t - time_of_last_reference) then
            (case Hist_get (HIST lru) page (K lru - 1) of
               Inl e \<Rightarrow> Inl e
             | Inr h \<Rightarrow>
                 if sint h < sint mn then FindVictim_loop lru t rest (h, page)
                 else FindVictim_loop lru t rest (mn, victim))
          else FindVictim_loop lru t rest (mn, victim))"

definition FindVictim :: "'k \<Rightarrow> 'k list \<Rightarrow> 'k LRU_K \<Rightarrow> int64 \<Rightarrow> error + 'k" where
  "FindVictim zk order lru t =
     (case FindVictim_loop lru t order (t, zk) of
        Inl e \<Rightarrow> Inl e
      | Inr (mn, victim) \<Rightarrow> Inr victim)"

definition NewLRU :: "int \<Rightarrow> int \<Rightarrow> int64 \<Rightarrow> 'k LRU_K" where
  "NewLRU k cap crp =
     \<lparr>K = k, HIST = Map.empty, LAST = Map.empty, CRP = crp, RIP = 0,
      Buffer = Map.empty, Cap = cap\<rparr>"

definition lruk_Get :: "'k LRU_K \<Rightarrow> 'k \<Rightarrow> byte list option \<times> bool" where
  "lruk_Get lru k = (Buffer lru k, Buffer lru k \<noteq> None)"

definition Cleanup :: "'k LRU_K \<Rightarrow> 'k \<Rightarrow> 'k LRU_K" where
  "Cleanup lru k =
     lru\<lparr>Buffer := (Buffer lru)(k := None),
         HIST := Hist_delete (HIST lru) k,
         LAST := Last_delete (LAST lru) k\<rparr>"

text \<open>
  One pass of the sweeper \<open>StartCleanup\<close> (the body of its endless \<open>for\<close>, after the sleep),
  over the buffer keys in the runtime's order.  \<open>go lru.Cleanup(page)\<close> is taken to have
  run when the pass ends; it touches the entries of \<open>page\<close> only, so the point at which it
  runs does not change what the pass reads for the other keys.
\<close>

fun cleanup_pass :: "'k LRU_K \<Rightarrow> 'k list \<Rightarrow> error + 'k LRU_K" where
  "cleanup_pass lru [] = Inr lru"
| "cleanup_pass lru (page # rest) =
     (case Hist_get (HIST lru) page (K lru - 1) of
        Inl e \<Rightarrow> Inl e
      | Inr backward_K_Distance \<Rightarrow>
          if sint (RIP lru) < sint backward_K_Distance
          then cleanup_pass (Cleanup lru page) rest
          else cleanup_pass lru rest)"

text \<open>
  The loop \<open>for i := 1; i < lru.K; i++\<close> of \<open>Set\<close>, which reads \<open>HIST[i-1]\<close> and writes
  \<open>HIST[i]\<close> with \<open>c\<close> added, for \<open>i\<close> going up.  \<open>Set\<close> has the loop twice: with the
  correlation period added (resident key) and with nothing added (re-admitted key), which
  is \<open>c = 0\<close> here.
\<close>

function shift_loop ::
  "int \<Rightarrow> ('k \<rightharpoonup> int64 list) \<Rightarrow> 'k \<Rightarrow> int64 \<Rightarrow> int \<Rightarrow> error + ('k \<rightharpoonup> int64 list)" where
  "shift_loop k hist ky c i =
     (if i < k then
        (case Hist_get hist ky (i - 1) of
           Inl e \<Rightarrow> Inl e
         | Inr prev_reference_time \<Rightarrow>
             (case Hist_set hist ky i (prev_reference_time + c) of
                Inl e \<Rightarrow> Inl e
              | Inr hist1 \<Rightarrow> shift_loop k hist1 ky c (i + 1)))
      else Inr hist)"
  by pat_completeness auto
termination
  by (relation "measure (\<lambda>(k, hist, ky, c, i). nat (k - i))") auto

definition lruk_Set ::
  "'k \<Rightarrow> 'k list \<Rightarrow> 'k LRU_K \<Rightarrow> 'k \<Rightarrow> byte list \<Rightarrow> int64 \<Rightarrow> error + ('k LRU_K \<times> bool)" where
  "lruk_Set zk order lru ky d t =
     (if Buffer lru ky \<noteq> None then
        (case Last_get (LAST lru) ky of
           Inl e \<Rightarrow> Inl e
         | Inr time_of_last_reference \<Rightarrow>
             (case (if sint (CRP lru) < sint (t - time_of_last_reference) then
                      (case Last_get (LAST lru) ky of
                         Inl e \<Rightarrow> Inl e
                       | Inr l \<Rightarrow>
                           (case Hist_get (HIST lru) ky 0 of
                              Inl e \<Rightarrow> Inl e
                            | Inr h0 \<Rightarrow>
                                (let correl_period_of_refd_page = l - h0
                                 in case shift_loop (K lru) (HIST lru) ky
                                           correl_period_of_refd_page 1 of
                                      Inl e \<Rightarrow> Inl e
                                    | Inr hist1 \<Rightarrow>
                                        (case Hist_set hist1 ky 0 t of
                                           Inl e \<Rightarrow> Inl e
                                         | Inr hist2 \<Rightarrow>
                                             Inr (lru\<lparr>HIST := hist2,
                                                      LAST := Last_set (LAST lru) ky t\<rparr>)))))
                    else Inr (lru\<lparr>LAST := Last_set (LAST lru) ky t\<rparr>)) of
                Inl e \<Rightarrow> Inl e
              | Inr lru1 \<Rightarrow> Inr (lru1\<lparr>Buffer := (Buffer lru1)(ky \<mapsto> d)\<rparr>, True)))
      else if int (card (dom (Buffer lru))) < Cap lru then
        (let lru1 = lru\<lparr>Buffer := (Buffer lru)(ky \<mapsto> d), LAST := Last_set (LAST lru) ky t\<rparr>
         in case Hist_init (HIST lru1) ky (K lru1) of
              Inl e \<Rightarrow> Inl e
            | Inr hist1 \<Rightarrow>
                (case Hist_set hist1 ky 0 t of
                   Inl e \<Rightarrow> Inl e
                 | Inr hist2 \<Rightarrow> Inr (lru1\<lparr>HIST := hist2\<rparr>, True)))
      else if Cap lru \<le> int (card (dom (Buffer lru))) then
        (case FindVictim zk order lru t of
           Inl e \<Rightarrow> Inl e
         | Inr victim \<Rightarrow>
             (let lru1 = lru\<lparr>Buffer := ((Buffer lru)(victim := None))(ky \<mapsto> d),
                            LAST := Last_delete (LAST lru) victim\<rparr>
              in case (if \<not> Hist_exists (HIST lru1) ky
                       then Hist_init (HIST lru1) ky (K lru1)
                       else shift_loop (K lru1) (HIST lru1) ky 0 1) of
                   Inl e \<Rightarrow> Inl e
                 | Inr hist1 \<Rightarrow>
                     (case Hist_set hist1 ky 0 t of
                        Inl e \<Rightarrow> Inl e
                      | Inr hist2 \<Rightarrow>
                          Inr (lru1\<lparr>HIST := hist2, LAST := Last_set (LAST lru1) ky t\<rparr>,
                               True))))
      else Inr (lru, True))"

text \<open>A run of \<open>Set\<close> calls, each with its key, bytes, time and the order in which the
  runtime would enumerate the buffer; it stops at the first panic.\<close>

fun lruk_run ::
  "'k \<Rightarrow> 'k LRU_K \<Rightarrow> ('k list \<times> 'k \<times> byte list \<times> int64) list \<Rightarrow> error + 'k LRU_K" where
  "lruk_run zk lru [] = Inr lru"
| "lruk_run zk lru ((order, ky, d, t) # ops) =
     (case lruk_Set zk order lru ky d t of
        Inl e \<Rightarrow> Inl e
      | Inr (lru1, ok) \<Rightarrow> lruk_run zk lru1 ops)"

section \<open>2Q (package qgo)\<close>

text \<open>
  The struct \<open>Node[T]\<close> of the 2Q package, with its fields prefixed by \<open>q_\<close>.  The three
  lists share one node store.  \<open>FIFO[T]\<close> and \<open>LRU[T]\<close> have the same three fields
  (\<open>Nodes\<close>, \<open>Tail\<close>, \<open>Head\<close>) and are one record type.  \<open>NewFIFO\<close>, \<open>NewLRU\<close> and
  \<open>NewTwoQ\<close> leave maps and list pointers \<open>nil\<close>, so a map field is an optional map
  and a list field of \<open>TwoQ\<close> an optional list: reading a nil map finds nothing, its
  \<open>len\<close> is 0, \<open>delete\<close> on it does nothing, and writing to it panics.
\<close>

record 'k QNode =
  q_key :: 'k
  q_end_identifier :: int
  q_prv :: ptr
  q_nxt :: ptr

record 'v Page =
  p_data :: "'v option"
  queueType :: string

record 'k NodeList =
  NL_Nodes :: "('k \<rightharpoonup> addr) option"
  Tail :: addr
  Head :: addr

type_synonym 'k FIFO = "'k NodeList"
type_synonym 'k LRU = "'k NodeList"

record ('k, 'v) TwoQ =
  K_In :: int
  K_Out :: int
  PageBuffer :: "('k \<rightharpoonup> 'v Page) option"
  QCapacity :: int
  A1in :: "'k FIFO option"
  Am :: "'k LRU option"
  A1out :: "'k FIFO option"
  qheap :: "addr \<Rightarrow> 'k QNode"
  qfree :: addr

definition map_len :: "('a \<rightharpoonup> 'b) option \<Rightarrow> int" where
  "map_len m = (case m of None \<Rightarrow> 0 | Some f \<Rightarrow> int (card (dom f)))"

definition map_get :: "('a \<rightharpoonup> 'b) option \<Rightarrow> 'a \<Rightarrow> 'b option" where
  "map_get m k = (case m of None \<Rightarrow> None | Some f \<Rightarrow> f k)"

definition map_delete :: "('a \<rightharpoonup> 'b) option \<Rightarrow> 'a \<Rightarrow> ('a \<rightharpoonup> 'b) option" where
  "map_delete m k = (case m of None \<Rightarrow> None | Some f \<Rightarrow> Some (f(k := None)))"

definition map_put :: "('a \<rightharpoonup> 'b) option \<Rightarrow> 'a \<Rightarrow> 'b \<Rightarrow> error + ('a \<rightharpoonup> 'b) option" where
  "map_put m k v = (case m of None \<Rightarrow> Inl NilMapWrite | Some f \<Rightarrow> Inr (Some (f(k \<mapsto> v))))"

definition q_DeleteNode :: "(addr \<Rightarrow> 'k QNode) \<Rightarrow> ptr \<Rightarrow> error + (addr \<Rightarrow> 'k QNode)" where
  "q_DeleteNode h node =
     (case node of
        None \<Rightarrow> Inl NilDeref
      | Some n \<Rightarrow>
          (let next = q_nxt (h n); prev = q_prv (h n)
           in case prev of
                None \<Rightarrow> Inl NilDeref
              | Some pv \<Rightarrow>
                  (let h1 = h(pv := (h pv)\<lparr>q_nxt := next\<rparr>)
                   in case next of
                        None \<Rightarrow> Inl NilDeref
                      | Some nx \<Rightarrow> Inr (h1(nx := (h1 nx)\<lparr>q_prv := prev\<rparr>)))))"

definition q_NewNode ::
  "(addr \<Rightarrow> 'k QNode) \<Rightarrow> addr \<Rightarrow> 'k \<Rightarrow> ptr \<Rightarrow> ptr
     \<Rightarrow> error + ((addr \<Rightarrow> 'k QNode) \<times> addr \<times> addr)" where
  "q_NewNode h fr k prev next =
     (let node = fr;
          h0 = h(node := \<lparr>q_key = k, q_end_identifier = 0, q_prv = prev, q_nxt = next\<rparr>)
      in case prev of
           None \<Rightarrow> Inl NilDeref
         | Some pv \<Rightarrow>
             (let h1 = h0(pv := (h0 pv)\<lparr>q_nxt := Some node\<rparr>)
              in case next of
                   None \<Rightarrow> Inl NilDeref
                 | Some nx \<Rightarrow> Inr (h1(nx := (h1 nx)\<lparr>q_prv := Some node\<rparr>), Suc fr, node)))"

text \<open>\<open>NewFIFO\<close> and \<open>NewLRU\<close>: two sentinels linked to each other, \<open>Nodes\<close> left nil.\<close>

definition NewFIFO ::
  "'k \<Rightarrow> (addr \<Rightarrow> 'k QNode) \<Rightarrow> addr \<Rightarrow> (addr \<Rightarrow> 'k QNode) \<times> addr \<times> 'k FIFO" where
  "NewFIFO zk h fr =
     (let tl_a = fr; hd_a = Suc fr;
          h1 = h(tl_a := \<lparr>q_key = zk, q_end_identifier = - 1, q_prv = Some hd_a, q_nxt = None\<rparr>,
                 hd_a := \<lparr>q_key = zk, q_end_identifier = 1, q_prv = None, q_nxt = Some tl_a\<rparr>)
      in (h1, Suc (Suc fr), \<lparr>NL_Nodes = None, Tail = tl_a, Head = hd_a\<rparr>))"

definition NewLRUList ::
  "'k \<Rightarrow> (addr \<Rightarrow> 'k QNode) \<Rightarrow> addr \<Rightarrow> (addr \<Rightarrow> 'k QNode) \<times> addr \<times> 'k LRU" where
  "NewLRUList = NewFIFO"

definition fifo_isPresent :: "'k FIFO option \<Rightarrow> 'k \<Rightarrow> error + bool" where
  "fifo_isPresent fifo k =
     (case fifo of None \<Rightarrow> Inl NilDeref | Some f \<Rightarrow> Inr (map_get (NL_Nodes f) k \<noteq> None))"

definition fifo_add ::
  "(addr \<Rightarrow> 'k QNode) \<Rightarrow> addr \<Rightarrow> 'k FIFO option \<Rightarrow> 'k
     \<Rightarrow> error + ((addr \<Rightarrow> 'k QNode) \<times> addr \<times> 'k FIFO \<times> addr)" where
  "fifo_add h fr fifo k =
     (case fifo of
        None \<Rightarrow> Inl NilDeref
      | Some f \<Rightarrow>
          if q_end_identifier (h (Head f)) \<noteq> 1 then Inl (Panic ''this has to be head'')
          else (let next_to_head = q_nxt (h (Head f))
                in case q_NewNode h fr k (Some (Head f)) next_to_head of
                     Inl e \<Rightarrow> Inl e
                   | Inr (h1, fr1, newNode) \<Rightarrow>
                       (case map_put (NL_Nodes f) k newNode of
                          Inl e \<Rightarrow> Inl e
                        | Inr m \<Rightarrow> Inr (h1, fr1, f\<lparr>NL_Nodes := m\<rparr>, newNode))))"

text \<open>\<open>evict\<close> returns \<open>defaultValue\<close> as the key in both of its returns.\<close>

definition fifo_evict ::
  "'k \<Rightarrow> (addr \<Rightarrow> 'k QNode) \<Rightarrow> 'k FIFO option
     \<Rightarrow> error + ((addr \<Rightarrow> 'k QNode) \<times> 'k FIFO \<times> 'k \<times> bool)" where
  "fifo_evict zk h fifo =
     (case fifo of
        None \<Rightarrow> Inl NilDeref
      | Some f \<Rightarrow>
          if q_end_identifier (h (Tail f)) \<noteq> - 1
          then Inl (Panic ''tail is not initialized properly'')
          else (case q_prv (h (Tail f)) of
                  None \<Rightarrow> Inl NilDeref
                | Some prev \<Rightarrow>
                    if q_end_identifier (h prev) = 1 then Inr (h, f, zk, False)
                    else (case q_DeleteNode h (Some prev) of
                            Inl e \<Rightarrow> Inl e
                          | Inr h1 \<Rightarrow>
                              Inr (h1, f\<lparr>NL_Nodes := map_delete (NL_Nodes f) (q_key (h1 prev))\<rparr>,
                                   zk, True))))"

text \<open>The bodies of \<open>LRU.add\<close> and \<open>LRU.evict\<close> are those of \<open>FIFO.add\<close> and \<open>FIFO.evict\<close>.\<close>

definition lru_add ::
  "(addr \<Rightarrow> 'k QNode) \<Rightarrow> addr \<Rightarrow> 'k LRU option \<Rightarrow> 'k
     \<Rightarrow> error + ((addr \<Rightarrow> 'k QNode) \<times> addr \<times> 'k LRU \<times> addr)" where
  "lru_add = fifo_add"

definition lru_evict ::
  "'k \<Rightarrow> (addr \<Rightarrow> 'k QNode) \<Rightarrow> 'k LRU option
     \<Rightarrow> error + ((addr \<Rightarrow> 'k QNode) \<times> 'k LRU \<times> 'k \<times> bool)" where
  "lru_evict = fifo_evict"

definition lru_getHead :: "(addr \<Rightarrow> 'k QNode) \<Rightarrow> 'k LRU option \<Rightarrow> error + addr" where
  "lru_getHead h lru =
     (case lru of
        None \<Rightarrow> Inl NilDeref
      | Some l \<Rightarrow> if q_end_identifier (h (Head l)) \<noteq> 1 then Inl (Panic ''how'') else Inr (Head l))"

definition lru_access ::
  "(addr \<Rightarrow> 'k QNode) \<Rightarrow> 'k LRU option \<Rightarrow> 'k \<Rightarrow> error + (addr \<Rightarrow> 'k QNode)" where
  "lru_access h lru k =
     (case lru of
        None \<Rightarrow> Inl NilDeref
      | Some l \<Rightarrow>
          (let node = map_get (NL_Nodes l) k
           in case q_DeleteNode h node of
                Inl e \<Rightarrow> Inl e
              | Inr h1 \<Rightarrow>
                  (case lru_getHead h1 lru of
                     Inl e \<Rightarrow> Inl e
                   | Inr hd_a \<Rightarrow>
                       (let n = the node;
                            h2 = h1(n := (h1 n)\<lparr>q_nxt := q_nxt (h1 hd_a)\<rparr>)
                        in Inr (h2(hd_a := (h2 hd_a)\<lparr>q_nxt := Some n\<rparr>))))))"

definition NewTwoQ :: "int \<Rightarrow> 'k \<Rightarrow> ('k, 'v) TwoQ" where
  "NewTwoQ capacity zk =
     \<lparr>K_In = 0, K_Out = 0, PageBuffer = None, QCapacity = capacity,
      A1in = None, Am = None, A1out = None,
      qheap = (\<lambda>_. \<lparr>q_key = zk, q_end_identifier = 0, q_prv = None, q_nxt = None\<rparr>),
      qfree = 0\<rparr>"

definition list_len :: "'k NodeList option \<Rightarrow> error + int" where
  "list_len l = (case l of None \<Rightarrow> Inl NilDeref | Some f \<Rightarrow> Inr (map_len (NL_Nodes f)))"

definition reclaimFor :: "'k \<Rightarrow> ('k, 'v) TwoQ \<Rightarrow> error + ('k, 'v) TwoQ" where
  "reclaimFor zk q =
     (if map_len (PageBuffer q) < QCapacity q then Inr q
      else (case list_len (A1in q) of
              Inl e \<Rightarrow> Inl e
            | Inr n_in \<Rightarrow>
                if K_In q \<le> n_in then
                  (case fifo_evict zk (qheap q) (A1in q) of
                     Inl e \<Rightarrow> Inl e
                   | Inr (h1, a1in, k, evicted) \<Rightarrow>
                       if \<not> evicted then Inl (Panic ''why cant we evict'')
                       else (let q1 = q\<lparr>qheap := h1, A1in := Some a1in,
                                         PageBuffer := map_delete (PageBuffer q) k\<rparr>
                             in case fifo_add (qheap q1) (qfree q1) (A1out q1) k of
                                  Inl e \<Rightarrow> Inl e
                                | Inr (h2, fr2, a1out, nd) \<Rightarrow>
                                    (let q2 = q1\<lparr>qheap := h2, qfree := fr2, A1out := Some a1out\<rparr>
                                     in case list_len (A1out q2) of
                                          Inl e \<Rightarrow> Inl e
                                        | Inr n_out \<Rightarrow>
                                            if K_Out q2 \<le> n_out then
                                              (case fifo_evict zk (qheap q2) (A1out q2) of
                                                 Inl e \<Rightarrow> Inl e
                                               | Inr (h3, a1out3, k3, evicted3) \<Rightarrow>
                                                   if \<not> evicted3
                                                   then Inl (Panic ''why cant we evict'')
                                                   else Inr (q2\<lparr>qheap := h3,
                                                                 A1out := Some a1out3\<rparr>))
                                            else Inr q2)))
                else
                  (case lru_evict zk (qheap q) (Am q) of
                     Inl e \<Rightarrow> Inl e
                   | Inr (h1, am, k, evicted) \<Rightarrow>
                       if \<not> evicted then Inl (Panic ''why cant we evict'')
                       else Inr (q\<lparr>qheap := h1, Am := Some am,
                                   PageBuffer := map_delete (PageBuffer q) k\<rparr>))))"

text \<open>
  \<open>Insert\<close>.  \<open>page\<close> is the pointer read from the page buffer, \<open>nil\<close> when the key is not
  there; \<open>page.data\<close> dereferences it.
\<close>

definition page_data :: "'v Page option \<Rightarrow> error + 'v option" where
  "page_data page = (case page of None \<Rightarrow> Inl NilDeref | Some p \<Rightarrow> Inr (p_data p))"

definition twoq_Insert ::
  "'k \<Rightarrow> ('k, 'v) TwoQ \<Rightarrow> 'k \<Rightarrow> 'v option \<Rightarrow> error + (('k, 'v) TwoQ \<times> 'v option \<times> bool)" where
  "twoq_Insert zk q k v =
     (let page = map_get (PageBuffer q) k
      in if page = None then
           (case reclaimFor zk q of
              Inl e \<Rightarrow> Inl e
            | Inr q1 \<Rightarrow>
                (case map_put (PageBuffer q1) k \<lparr>p_data = v, queueType = ''A1_In''\<rparr> of
                   Inl e \<Rightarrow> Inl e
                 | Inr pb \<Rightarrow>
                     (case page_data page of
                        Inl e \<Rightarrow> Inl e
                      | Inr d \<Rightarrow> Inr (q1\<lparr>PageBuffer := pb\<rparr>, d, False))))
         else if queueType (the page) = ''A1_In'' then
           (case page_data page of Inl e \<Rightarrow> Inl e | Inr d \<Rightarrow> Inr (q, d, True))
         else
           (case (if queueType (the page) = ''A_M''
                  then map_sum id (\<lambda>h. q\<lparr>qheap := h\<rparr>) (lru_access (qheap q) (Am q) k)
                  else Inr q) of
              Inl e \<Rightarrow> Inl e
            | Inr q1 \<Rightarrow>
                (case fifo_isPresent (A1out q1) k of
                   Inl e \<Rightarrow> Inl e
                 | Inr ghost \<Rightarrow>
                     (case (if ghost then
                              (case reclaimFor zk q1 of
                                 Inl e \<Rightarrow> Inl e
                               | Inr q2 \<Rightarrow>
                                   (case lru_add (qheap q2) (qfree q2) (Am q2) k of
                                      Inl e \<Rightarrow> Inl e
                                    | Inr (h3, fr3, am, nd) \<Rightarrow>
                                        (case map_put (PageBuffer q2) k
                                                \<lparr>p_data = v, queueType = ''A_M''\<rparr> of
                                           Inl e \<Rightarrow> Inl e
                                         | Inr pb \<Rightarrow>
                                             Inr (q2\<lparr>qheap := h3, qfree := fr3, Am := Some am,
                                                     PageBuffer := pb\<rparr>))))
                            else Inr q1) of
                        Inl e \<Rightarrow> Inl e
                      | Inr q3 \<Rightarrow>
                          (case page_data page of
                             Inl e \<Rightarrow> Inl e
                           | Inr d \<Rightarrow> Inr (q3, d, True))))))"

text \<open>The set-up every test of the package performs after \<open>NewTwoQ\<close>: the thresholds, an
  empty page buffer, and the three lists with empty \<open>Nodes\<close> maps.\<close>

definition twoq_setup :: "int \<Rightarrow> int \<Rightarrow> int \<Rightarrow> 'k \<Rightarrow> ('k, 'v) TwoQ" where
  "twoq_setup capacity k_in k_out zk =
     (let q = NewTwoQ capacity zk;
          (h1, fr1, a1in) = NewFIFO zk (qheap q) (qfree q);
          (h2, fr2, am) = NewLRUList zk h1 fr1;
          (h3, fr3, a1out) = NewFIFO zk h2 fr2
      in q\<lparr>K_In := k_in, K_Out := k_out, PageBuffer := Some Map.empty,
           A1in := Some (a1in\<lparr>NL_Nodes := Some Map.empty\<rparr>),
           Am := Some (am\<lparr>NL_Nodes := Some Map.empty\<rparr>),
           A1out := Some (a1out\<lparr>NL_Nodes := Some Map.empty\<rparr>),
           qheap := h3, qfree := fr3\<rparr>)"

section \<open>O(1)-LFU (package lfuo1)\<close>

text \<open>
  \<open>FreqNode[T]\<close> (fields prefixed by \<open>f_\<close>; \<open>items\<close> may be a nil map, as in the head
  built by \<open>NewLfuCache\<close>) and \<open>LFU_Item[T]\<close> (fields prefixed by \<open>i_\<close>).  Items are shared
  between \<open>bykey\<close> and a bucket's \<open>items\<close> and changed in place, so they live in a store
  of their own.  A key missing from \<open>bykey\<close> reads as the \<open>nil\<close> item pointer.
\<close>

record 'k FreqNode =
  f_value :: int
  f_items :: "('k \<rightharpoonup> addr) option"
  f_prv :: ptr
  f_nxt :: ptr

record 'v LFU_Item =
  i_data :: "'v option"
  i_parent :: ptr

record ('k, 'v) LFU_Cache =
  lfu_size :: int
  bykey :: "'k \<rightharpoonup> addr"
  freq_Head :: addr
  fheap :: "addr \<Rightarrow> 'k FreqNode"
  ffree :: addr
  iheap :: "addr \<Rightarrow> 'v LFU_Item"
  ifree :: addr

definition NewFreqNode :: "'k FreqNode" where
  "NewFreqNode = \<lparr>f_value = 0, f_items = Some Map.empty, f_prv = None, f_nxt = None\<rparr>"

definition GetNewNode ::
  "('k, 'v) LFU_Cache \<Rightarrow> int \<Rightarrow> ptr \<Rightarrow> ptr \<Rightarrow> error + (('k, 'v) LFU_Cache \<times> addr)" where
  "GetNewNode c v prev next =
     (let new_node = ffree c;
          h0 = (fheap c)(new_node := NewFreqNode\<lparr>f_value := v, f_prv := prev, f_nxt := next\<rparr>)
      in case prev of
           None \<Rightarrow> Inl NilDeref
         | Some pv \<Rightarrow>
             (let h1 = h0(pv := (h0 pv)\<lparr>f_nxt := Some new_node\<rparr>)
              in case next of
                   None \<Rightarrow> Inl NilDeref
                 | Some nx \<Rightarrow>
                     Inr (c\<lparr>fheap := h1(nx := (h1 nx)\<lparr>f_prv := Some new_node\<rparr>),
                            ffree := Suc new_node\<rparr>, new_node)))"

definition f_DeleteNode :: "('k, 'v) LFU_Cache \<Rightarrow> ptr \<Rightarrow> error + ('k, 'v) LFU_Cache" where
  "f_DeleteNode c node =
     (case node of
        None \<Rightarrow> Inl NilDeref
      | Some n \<Rightarrow>
          (let next = f_nxt (fheap c n); prev = f_prv (fheap c n)
           in case prev of
                None \<Rightarrow> Inl NilDeref
              | Some pv \<Rightarrow>
                  (let h1 = (fheap c)(pv := (fheap c pv)\<lparr>f_nxt := next\<rparr>)
                   in case next of
                        None \<Rightarrow> Inl NilDeref
                      | Some nx \<Rightarrow> Inr (c\<lparr>fheap := h1(nx := (h1 nx)\<lparr>f_prv := prev\<rparr>)\<rparr>))))"

definition NewLfuCache :: "('k, 'v) LFU_Cache" where
  "NewLfuCache =
     \<lparr>lfu_size = 0, bykey = Map.empty, freq_Head = 0,
      fheap = (\<lambda>_. \<lparr>f_value = 0, f_items = None, f_prv = None, f_nxt = None\<rparr>),
      ffree = 1,
      iheap = (\<lambda>_. \<lparr>i_data = None, i_parent = None\<rparr>),
      ifree = 0\<rparr>"

text \<open>
  \<open>Evict\<close> takes the first key that \<open>range\<close> yields from the items of the first bucket; the
  order of that enumeration is the argument \<open>order\<close>.
\<close>

definition lfu_Evict ::
  "'k \<Rightarrow> 'k list \<Rightarrow> ('k, 'v) LFU_Cache \<Rightarrow> error + (('k, 'v) LFU_Cache \<times> 'k \<times> 'v option)" where
  "lfu_Evict zk order c =
     (if card (dom (bykey c)) = 0 then Inl (Panic ''the set is empty'')
      else (case f_nxt (fheap c (freq_Head c)) of
              None \<Rightarrow> Inl (Panic ''the set is empty'')
            | Some b \<Rightarrow>
                (case find (\<lambda>k. map_get (f_items (fheap c b)) k \<noteq> None) order of
                   None \<Rightarrow> Inr (c, zk, None)
                 | Some item \<Rightarrow>
                     (let present = the (map_get (f_items (fheap c b)) item);
                          c1 = c\<lparr>fheap := (fheap c)(b := (fheap c b)
                                       \<lparr>f_items := map_delete (f_items (fheap c b)) item\<rparr>),
                                 bykey := (bykey c)(item := None)\<rparr>
                      in case (if map_len (f_items (fheap c1 b)) = 0
                               then f_DeleteNode c1 (f_nxt (fheap c1 (freq_Head c1)))
                               else Inr c1) of
                           Inl e \<Rightarrow> Inl e
                         | Inr c2 \<Rightarrow> Inr (c2, item, i_data (iheap c2 present))))))"

definition lfu_Insert ::
  "'k \<Rightarrow> 'k list \<Rightarrow> ('k, 'v) LFU_Cache \<Rightarrow> 'k \<Rightarrow> 'v option \<Rightarrow> error + ('k, 'v) LFU_Cache" where
  "lfu_Insert zk order c k v =
     (if bykey c k \<noteq> None then Inl (Panic ''Key already exists'')
      else (case (if int (card (dom (bykey c))) = lfu_size c
                  then map_sum id fst (lfu_Evict zk order c) else Inr c) of
              Inl e \<Rightarrow> Inl e
            | Inr c1 \<Rightarrow>
                (let freq = f_nxt (fheap c1 (freq_Head c1))
                 in case (case freq of
                            None \<Rightarrow> GetNewNode c1 1 (Some (freq_Head c1)) freq
                          | Some b \<Rightarrow>
                              if f_value (fheap c1 b) \<noteq> 1
                              then GetNewNode c1 1 (Some (freq_Head c1)) freq
                              else Inr (c1, b)) of
                      Inl e \<Rightarrow> Inl e
                    | Inr (c2, fq) \<Rightarrow>
                        (let lfuItem = ifree c2;
                             c3 = c2\<lparr>iheap := (iheap c2)
                                        (lfuItem := \<lparr>i_data = v, i_parent = Some fq\<rparr>),
                                     ifree := Suc lfuItem,
                                     bykey := (bykey c2)(k \<mapsto> lfuItem)\<rparr>
                         in case map_put (f_items (fheap c3 fq)) k lfuItem of
                              Inl e \<Rightarrow> Inl e
                            | Inr m \<Rightarrow>
                                Inr (c3\<lparr>fheap := (fheap c3)
                                         (fq := (fheap c3 fq)\<lparr>f_items := m\<rparr>)\<rparr>)))))"

definition lfu_Access ::
  "('k, 'v) LFU_Cache \<Rightarrow> 'k \<Rightarrow> error + (('k, 'v) LFU_Cache \<times> 'v option)" where
  "lfu_Access c k =
     (case bykey c k of
        None \<Rightarrow> Inl (Panic ''No such key'')
      | Some tmp \<Rightarrow>
          (case i_parent (iheap c tmp) of
             None \<Rightarrow> Inl NilDeref
           | Some freq \<Rightarrow>
               (let next_freq = f_nxt (fheap c freq)
                in case (if next_freq = None
                            \<or> f_value (fheap c (the next_freq)) \<noteq> f_value (fheap c freq) + 1
                         then GetNewNode c (f_value (fheap c freq) + 1) (Some freq) next_freq
                         else Inr (c, the next_freq)) of
                     Inl e \<Rightarrow> Inl e
                   | Inr (c1, nf) \<Rightarrow>
                       (case map_put (f_items (fheap c1 nf)) k tmp of
                          Inl e \<Rightarrow> Inl e
                        | Inr m \<Rightarrow>
                            (let c2 = c1\<lparr>fheap := (fheap c1)(nf := (fheap c1 nf)\<lparr>f_items := m\<rparr>),
                                        iheap := (iheap c1)
                                          (tmp := (iheap c1 tmp)\<lparr>i_parent := Some nf\<rparr>)\<rparr>;
                                 c3 = c2\<lparr>fheap := (fheap c2)(freq := (fheap c2 freq)
                                          \<lparr>f_items := map_delete (f_items (fheap c2 freq)) k\<rparr>)\<rparr>
                             in case (if map_len (f_items (fheap c3 freq)) = 0
                                      then f_DeleteNode c3 (Some freq) else Inr c3) of
                                  Inl e \<Rightarrow> Inl e
                                | Inr c4 \<Rightarrow> Inr (c4, i_data (iheap c4 tmp)))))))"

section \<open>Vocabulary of the statements\<close>

subsection \<open>SIEVE\<close>

text \<open>\<open>links h ys\<close>: in the store \<open>h\<close> the nodes \<open>ys\<close> form a doubly-linked chain, each
  node's \<open>next\<close> being its successor in \<open>ys\<close> and each node's \<open>prev\<close> its predecessor.\<close>

fun links :: "(addr \<Rightarrow> ('k, 'v) Node) \<Rightarrow> addr list \<Rightarrow> bool" where
  "links h (a # b # ys) = (nxt (h a) = Some b \<and> prv (h b) = Some a \<and> links h (b # ys))"
| "links h [a] = True"
| "links h [] = True"

text \<open>The store \<open>h\<close> with the visited bit of every node in \<open>A\<close> reset.\<close>

definition clear :: "(addr \<Rightarrow> ('k, 'v) Node) \<Rightarrow> addr set \<Rightarrow> (addr \<Rightarrow> ('k, 'v) Node)" where
  "clear h A = (\<lambda>a. if a \<in> A then (h a)\<lparr>visited := False\<rparr> else h a)"

text \<open>
  A well-formed SIEVE state whose live nodes are \<open>xs\<close>, from the head end to the tail end:
  the two sentinels and the nodes of \<open>xs\<close> are distinct allocated nodes, linked in that
  order; the sentinels carry their tags 1 and -1 and a live node the tag 0; the index is
  finite, and an index entry for key \<open>k\<close> points to a linked node that carries \<open>k\<close>
  (invariant (I2) of the data model).
\<close>

definition sieve_wf :: "('k, 'v) Sieve \<Rightarrow> addr list \<Rightarrow> bool" where
  "sieve_wf s xs \<longleftrightarrow>
     distinct (head s # xs @ [tail s]) \<and>
     links (heap s) (head s # xs @ [tail s]) \<and>
     end_identifier (heap s (head s)) = 1 \<and>
     end_identifier (heap s (tail s)) = - 1 \<and>
     (\<forall>x\<in>set xs. end_identifier (heap s x) = 0) \<and>
     (\<forall>x\<in>set (head s # xs @ [tail s]). x < free s) \<and>
     finite (dom (Nodes s)) \<and>
     (\<forall>k a. Nodes s k = Some a \<longrightarrow> a \<in> set xs \<and> key (heap s a) = k)"

text \<open>
  The hand as \<open>Insert\<close> leaves it: unset, at the head sentinel, or at a live node other
  than the first one after the head (an insertion always follows the eviction that set
  the hand, and puts a node in front of it).
\<close>

definition hand_ok :: "('k, 'v) Sieve \<Rightarrow> addr list \<Rightarrow> bool" where
  "hand_ok s xs =
     (case hand s of
        None \<Rightarrow> True
      | Some h \<Rightarrow> h = head s \<or> (h \<in> set xs \<and> h \<noteq> hd xs))"

text \<open>The invariant of the states a SIEVE cache goes through: positive capacity, a
  well-formed list and index, and the hand as \<open>Insert\<close> leaves it.\<close>

definition sieve_inv :: "('k, 'v) Sieve \<Rightarrow> bool" where
  "sieve_inv s = (0 < Capacity s \<and> (\<exists>xs. sieve_wf s xs \<and> hand_ok s xs))"

text \<open>The state \<open>NewSieve\<close> builds for capacity 2, and the state after \<open>Insert("a", 1)\<close>.\<close>

definition sieve_new2 :: "(string, nat) Sieve" where
  "sieve_new2 =
     \<lparr>hand = None, Capacity = 2, Nodes = Map.empty, head = 0, tail = 1,
      heap = (\<lambda>_. zero_node [])
        (0 := (zero_node [])\<lparr>end_identifier := 1, nxt := Some 1\<rparr>,
         1 := (zero_node [])\<lparr>end_identifier := - 1, prv := Some 0\<rparr>),
      free = 2\<rparr>"

definition sieve_a :: "(string, nat) Sieve" where
  "sieve_a =
     \<lparr>hand = None, Capacity = 2, Nodes = [''a'' \<mapsto> 2], head = 0, tail = 1,
      heap = (\<lambda>_. zero_node [])
        (0 := (zero_node [])\<lparr>end_identifier := 1, nxt := Some 2\<rparr>,
         1 := (zero_node [])\<lparr>end_identifier := - 1, prv := Some 2\<rparr>,
         2 := \<lparr>key = ''a'', end_identifier = 0, nxt = Some 1, prv = Some 0, val = Some 1,
                visited = False\<rparr>),
      free = 3\<rparr>"

text \<open>The state after \<open>Insert("a", 1)\<close>, \<open>Insert("b", 2)\<close>, \<open>Get("a")\<close>, \<open>Get("b")\<close> on a new
  cache of capacity 2: node 3 (key \<open>b\<close>) is linked before node 2 (key \<open>a\<close>), both visited.\<close>

definition sieve_ab :: "(string, nat) Sieve" where
  "sieve_ab =
     \<lparr>hand = None, Capacity = 2, Nodes = [''a'' \<mapsto> 2, ''b'' \<mapsto> 3], head = 0, tail = 1,
      heap = (\<lambda>_. zero_node [])
        (0 := (zero_node [])\<lparr>end_identifier := 1, nxt := Some 3\<rparr>,
         1 := (zero_node [])\<lparr>end_identifier := - 1, prv := Some 2\<rparr>,
         2 := \<lparr>key = ''a'', end_identifier = 0, nxt = Some 1, prv = Some 3, val = Some 1,
                visited = True\<rparr>,
         3 := \<lparr>key = ''b'', end_identifier = 0, nxt = Some 2, prv = Some 0, val = Some 2,
                visited = True\<rparr>),
      free = 4\<rparr>"

subsection \<open>LRU-K\<close>


definition hist_K :: "'k LRU_K \<Rightarrow> 'k \<Rightarrow> int64" where
  "hist_K lru p = (case HIST lru p of None \<Rightarrow> 0 | Some h \<Rightarrow> h ! nat (K lru - 1))"





section \<open>Properties\<close>

lemmas lruk_defs =
  lruk_Set_def NewLRU_def Last_get_def Last_set_def Last_delete_def Hist_get_def Hist_set_def
  Hist_init_def Hist_exists_def Hist_delete_def FindVictim_def Cleanup_def Let_def

subsection \<open>Capacity\<close>

text \<open>
  Claim C1 says that in every engine the number of resident keys is at most the capacity
  whenever an operation returns.  LRU-K breaks it.  With \<open>K = 2\<close>, capacity 1 and
  \<open>CRP = 10\<close>, \<open>Set(a)\<close> at time 100 followed by \<open>Set(b)\<close> at time 101 both return, and
  the buffer then holds two keys: \<open>a\<close> is inside its correlated reference period, so
  \<open>FindVictim\<close> returns the zero key, deleting it removes nothing, and \<open>b\<close> is added.
\<close>

theorem lruk_capacity_exceeded:
  "\<exists>lru. lruk_run [] (NewLRU 2 1 10) [([], ''a'', [], 100), ([''a''], ''b'', [], 101)] = Inr lru
     \<and> dom (Buffer lru) = {''a'', ''b''} \<and> card (dom (Buffer lru)) = 2 \<and> Cap lru = 1"
  by (simp add: lruk_defs) auto

subsection \<open>LRU-K victim selection\<close>





subsection \<open>LRU-K history update\<close>

text \<open>
  Claim C4 says that an uncorrelated \<open>Set\<close> gives every \<open>HIST[i]\<close>, for \<open>i\<close> from 1 to
  \<open>K - 1\<close>, the value \<open>HIST[i-1]\<close> had before the update plus the correlation period.  The
  loop of \<open>Set\<close> runs \<open>i\<close> upwards and reads \<open>HIST[i-1]\<close> after it has overwritten it, so
  for \<open>K = 3\<close> the entry \<open>HIST[2]\<close> is built from the new \<open>HIST[1]\<close>.  With \<open>K = 3\<close> and
  \<open>CRP = 1\<close>: \<open>Set(k)\<close> at time 100 leaves \<open>HIST = [100, 0, 0]\<close>, \<open>Set(k)\<close> at 101 is
  correlated and leaves \<open>LAST = 101\<close>, and \<open>Set(k)\<close> at 103 is uncorrelated with
  correlation period \<open>101 - 100 = 1\<close>.  The claim gives \<open>HIST = [103, 101, 1]\<close>; the code
  gives \<open>[103, 101, 102]\<close>.
\<close>

theorem lruk_shift_reads_overwritten_entry:
  "\<exists>lru1 lru2.
     lruk_run [] (NewLRU 3 1 1) [([], ''k'', [], 100), ([''k''], ''k'', [], 101)] = Inr lru1
     \<and> HIST lru1 ''k'' = Some [100, 0, 0] \<and> LAST lru1 ''k'' = Some 101
     \<and> lruk_Set [] [''k''] lru1 ''k'' [] 103 = Inr (lru2, True)
     \<and> HIST lru2 ''k'' = Some [103, 101, 102]"
  by (simp add: lruk_defs eval_nat_numeral)

subsection \<open>LRU-K sweeper\<close>

text \<open>
  Claim C5 says that a pass of the sweeper purges exactly the keys whose backward
  K-distance \<open>t - HIST(p, K-1)\<close> exceeds \<open>RIP\<close>.  The pass compares \<open>HIST(p, K-1)\<close> itself
  with \<open>RIP\<close> and never reads the time.  With \<open>K = 1\<close> and \<open>RIP = 100\<close>, after \<open>Set(b)\<close> at
  time 50 and \<open>Set(a)\<close> at time 950, a pass at time 1000 should keep \<open>a\<close> (distance 50)
  and purge \<open>b\<close> (distance 950); it purges \<open>a\<close> (950 > 100) and keeps \<open>b\<close>.
\<close>

theorem lruk_cleanup_pass_compares_timestamp:
  "\<exists>lru lru'.
     lruk_run [] ((NewLRU 1 2 0)\<lparr>RIP := 100\<rparr>)
        [([], ''b'', [], 50), ([''b''], ''a'', [], 950)] = Inr lru
     \<and> hist_K lru ''a'' = 950 \<and> hist_K lru ''b'' = 50
     \<and> cleanup_pass lru [''a'', ''b''] = Inr lru'
     \<and> dom (Buffer lru') = {''b''} \<and> dom (HIST lru') = {''b''} \<and> dom (LAST lru') = {''b''}
     \<and> sint ((1000::int64) - hist_K lru ''a'') \<le> sint (RIP lru)
     \<and> sint (RIP lru) < sint ((1000::int64) - hist_K lru ''b'')"
  by (simp add: lruk_defs hist_K_def)

subsection \<open>2Q\<close>

lemmas twoq_defs =
  twoq_Insert_def twoq_setup_def NewTwoQ_def NewFIFO_def NewLRUList_def Let_def
  map_get_def map_put_def map_len_def map_delete_def reclaimFor_def page_data_def
  fifo_add_def fifo_isPresent_def q_NewNode_def list_len_def

text \<open>
  Claim C6 says that \<open>insert\<close> of a key held by the ghost list \<open>A1out\<close> reclaims a slot,
  installs the key in \<open>Am\<close> and removes it from \<open>A1out\<close>, and walks through the scenario
  with capacity 3 and \<open>K_in = K_out = 1\<close>.  In the code the first \<open>Insert\<close> of that
  scenario already panics: on a miss \<open>Insert\<close> returns \<open>page.data\<close>, where \<open>page\<close> is the
  nil pointer the lookup gave.  The ghost branch sits behind the miss branch, so a key
  that is in \<open>A1out\<close> and not in the page buffer takes the miss branch and panics too
  (second half of the statement: \<open>k1\<close> is put into \<open>A1out\<close> by \<open>add\<close>, then inserted).
\<close>

theorem twoq_scenario_first_insert_panics:
  "twoq_Insert [] (twoq_setup 3 1 1 []) ''k1'' v = Inl NilDeref
   \<and> (\<exists>h fr a1out nd.
         fifo_add (qheap (twoq_setup 3 1 1 [])) (qfree (twoq_setup 3 1 1 []))
                  (A1out (twoq_setup 3 1 1 [])) ''k1'' = Inr (h, fr, a1out, nd)
       \<and> fifo_isPresent (Some a1out) ''k1'' = Inr True
       \<and> map_get (PageBuffer (twoq_setup 3 1 1 [])) ''k1'' = None
       \<and> twoq_Insert [] ((twoq_setup 3 1 1 [])\<lparr>qheap := h, qfree := fr, A1out := Some a1out\<rparr>)
            ''k1'' v = Inl NilDeref)"
  by (simp add: twoq_defs)

text \<open>
  Claim C7 says that \<open>insert\<close> returns \<open>was_present = false\<close>, as a normal result, on every
  miss.  In the code every miss ends in a panic, whatever the state: either \<open>reclaimFor\<close>
  or the write to the page buffer panics, or the final \<open>return page.data, false\<close>
  dereferences the nil \<open>page\<close>.
\<close>

theorem twoq_Insert_miss_panics:
  "map_get (PageBuffer q) k = None \<Longrightarrow> \<exists>e. twoq_Insert zk q k v = Inl e"
  by (auto simp: twoq_Insert_def Let_def page_data_def split: sum.splits)

text \<open>The first insertion of the package's own test (capacity 3, \<open>K_in = K_out = 1\<close>), which
  expects \<open>present = false\<close>.\<close>

theorem twoq_Insert_miss_panics_witness:
  "map_get (PageBuffer (twoq_setup 3 1 1 [] :: (string, string) TwoQ)) ''key1'' = None
   \<and> (\<exists>e. twoq_Insert [] (twoq_setup 3 1 1 [] :: (string, string) TwoQ) ''key1''
             (Some ''value1'') = Inl e)"
proof -
  have h: "map_get (PageBuffer (twoq_setup 3 1 1 [] :: (string, string) TwoQ)) ''key1'' = None"
    by (simp add: twoq_defs)
  from twoq_Insert_miss_panics[OF h] h show ?thesis by blast
qed

subsection \<open>O(1)-LFU\<close>

text \<open>
  Claim C8 says that with capacity 2 the sequence \<open>insert(k1); insert(k2); access(k2);
  insert(k3)\<close> completes and evicts \<open>k1\<close>.  In the code the first \<open>Insert\<close> into a new
  cache panics: the bucket list is empty, \<open>freq_Head.next\<close> is nil and is passed to
  \<open>GetNewNode\<close> as \<open>next\<close>, which assigns \<open>next.prev\<close>.
\<close>

theorem lfu_first_Insert_panics:
  "lfu_Insert zk order (NewLfuCache\<lparr>lfu_size := 2\<rparr>) k1 v1 = Inl NilDeref"
  by (simp add: lfu_Insert_def NewLfuCache_def GetNewNode_def Let_def)

text \<open>
  Claim C9: \<open>Access\<close> of a key that is not in the index \<open>bykey\<close> panics (with the message
  \<open>No such key\<close>), in every state of the cache.
\<close>

theorem lfu_Access_missing_key_panics:
  "bykey c k = None \<Longrightarrow> lfu_Access c k = Inl (Panic ''No such key'')"
  by (simp add: lfu_Access_def)

theorem lfu_Access_missing_key_panics_witness:
  "bykey (NewLfuCache :: (string, string) LFU_Cache) ''nonexistent'' = None
   \<and> lfu_Access (NewLfuCache :: (string, string) LFU_Cache) ''nonexistent''
       = Inl (Panic ''No such key'')"
proof -
  have h: "bykey (NewLfuCache :: (string, string) LFU_Cache) ''nonexistent'' = None"
    by (simp add: NewLfuCache_def)
  from lfu_Access_missing_key_panics[OF h] h show ?thesis by simp
qed

subsection \<open>SIEVE: the list and the sweep\<close>

lemma links_append:
  "links h (as @ bs) \<longleftrightarrow>
     links h as \<and> links h bs \<and>
     (as \<noteq> [] \<and> bs \<noteq> [] \<longrightarrow> nxt (h (last as)) = Some (hd bs) \<and> prv (h (hd bs)) = Some (last as))"
proof (induction as)
  case Nil
  then show ?case by simp
next
  case (Cons a as)
  show ?case
  proof (cases as)
    case Nil
    then show ?thesis by (cases bs) auto
  next
    case (Cons a' as')
    with Cons.IH show ?thesis by auto
  qed
qed

lemma links_frame:
  assumes "\<forall>a\<in>set (butlast ys). nxt (h' a) = nxt (h a)"
      and "\<forall>b\<in>set (tl ys). prv (h' b) = prv (h b)"
  shows "links h' ys = links h ys"
  using assms
proof (induction ys rule: links.induct)
  case (1 h a b ys)
  then show ?case by auto
qed auto

lemma links_clear [simp]: "links (clear h A) ys = links h ys"
  by (rule links_frame) (auto simp: clear_def)

lemma clear_empty [simp]: "clear h {} = h"
  by (simp add: clear_def)

lemma clear_upd: "clear (h(m := (h m)\<lparr>visited := False\<rparr>)) A = clear h (insert m A)"
  by (auto simp: clear_def fun_eq_iff)

lemma clear_clear: "clear (clear h A) B = clear h (A \<union> B)"
  by (auto simp: clear_def fun_eq_iff)

lemma clear_fields [simp]:
  "nxt (clear h A a) = nxt (h a)" "prv (clear h A a) = prv (h a)"
  "end_identifier (clear h A a) = end_identifier (h a)" "key (clear h A a) = key (h a)"
  "val (clear h A a) = val (h a)"
  by (auto simp: clear_def)

lemma clear_visited [simp]: "visited (clear h A a) \<longleftrightarrow> a \<notin> A \<and> visited (h a)"
  by (auto simp: clear_def)

lemma clear_single: "h(m := (h m)\<lparr>visited := False\<rparr>) = clear h {m}"
  by (auto simp: clear_def fun_eq_iff)

lemma sweep_stop:
  assumes "distinct mid" "\<forall>m\<in>set mid. visited (heap s m)" "\<not> visited (heap s u)"
      "links (heap s) (u # mid)" "\<forall>x\<in>set (u # mid). end_identifier (heap s x) \<noteq> 1"
  shows "sweep s (Some (last (u # mid))) = Some (Inr (s\<lparr>heap := clear (heap s) (set mid)\<rparr>, u))"
  using assms
proof (induction mid arbitrary: s rule: rev_induct)
  case Nil
  have "sweep s (Some u) = Some (Inr (s, u))"
    by (subst sweep.simps) (simp add: Nil.prems(3))
  then show ?case by simp
next
  case (snoc m mid)
  let ?s1 = "s\<lparr>heap := clear (heap s) {m}\<rparr>"
  from snoc.prems have vm: "visited (heap s m)" and mn: "m \<notin> set mid" and um: "u \<noteq> m" by auto
  define b where "b = last (u # mid)"
  from snoc.prems(4) have l: "links (heap s) ((u # mid) @ [m])" by simp
  then have pm: "prv (heap s m) = Some b" and l': "links (heap s) (u # mid)"
    unfolding links_append b_def by auto
  have "b \<in> set (u # mid)" unfolding b_def by (rule last_in_set) simp
  then have e: "end_identifier (heap s b) \<noteq> 1"
    using snoc.prems(5) by auto
  have step: "sweep s (Some m) = sweep ?s1 (Some b)"
    by (subst sweep.simps) (simp add: vm Let_def clear_single pm e)
  have ih: "sweep ?s1 (Some (last (u # mid))) = Some (Inr (?s1\<lparr>heap := clear (heap ?s1) (set mid)\<rparr>, u))"
  proof (rule snoc.IH)
    show "distinct mid" using snoc.prems(1) by simp
    show "\<forall>m\<in>set mid. visited (heap ?s1 m)" using snoc.prems(2) mn by auto
    show "\<not> visited (heap ?s1 u)" using snoc.prems(3) by simp
    show "links (heap ?s1) (u # mid)" using l' by simp
    show "\<forall>x\<in>set (u # mid). end_identifier (heap ?s1 x) \<noteq> 1" using snoc.prems(5) by simp
  qed
  have "?s1\<lparr>heap := clear (heap ?s1) (set mid)\<rparr> = s\<lparr>heap := clear (heap s) (set (mid @ [m]))\<rparr>"
    by (simp add: clear_clear)
  with step ih show ?case by (simp add: b_def)
qed

lemma sweep_wrap:
  assumes "distinct seg" "seg \<noteq> []" "\<forall>m\<in>set seg. visited (heap s m)"
      "links (heap s) (hd_a # seg)" "\<forall>x\<in>set seg. end_identifier (heap s x) \<noteq> 1"
      "end_identifier (heap s hd_a) = 1" "end_identifier (heap s (tail s)) = - 1"
  shows "sweep s (Some (last seg)) = sweep (s\<lparr>heap := clear (heap s) (set seg)\<rparr>) (prv (heap s (tail s)))"
  using assms
proof (induction seg arbitrary: s rule: rev_induct)
  case Nil
  then show ?case by simp
next
  case (snoc m seg)
  let ?s1 = "s\<lparr>heap := clear (heap s) {m}\<rparr>"
  from snoc.prems have vm: "visited (heap s m)" and mn: "m \<notin> set seg" by auto
  from snoc.prems(4) have l: "links (heap s) ((hd_a # seg) @ [m])" by simp
  then have pm: "prv (heap s m) = Some (last (hd_a # seg))" and l': "links (heap s) (hd_a # seg)"
    unfolding links_append by auto
  have gt: "getTail ?s1 = Inr (tail s)"
    using snoc.prems(7) by (simp add: getTail_def)
  show ?case
  proof (cases "seg = []")
    case True
    have "sweep s (Some m) = sweep ?s1 (prv (heap s (tail s)))"
      by (subst sweep.simps) (simp add: vm Let_def clear_single pm True snoc.prems(6) gt)
    then show ?thesis using True by simp
  next
    case False
    then have e: "end_identifier (heap s (last seg)) \<noteq> 1" using snoc.prems(5) by auto
    have step: "sweep s (Some m) = sweep ?s1 (Some (last seg))"
      by (subst sweep.simps) (simp add: vm Let_def clear_single pm e False)
    have ih: "sweep ?s1 (Some (last seg)) =
        sweep (?s1\<lparr>heap := clear (heap ?s1) (set seg)\<rparr>) (prv (heap ?s1 (tail ?s1)))"
    proof (rule snoc.IH)
      show "distinct seg" using snoc.prems(1) by simp
      show "seg \<noteq> []" by (rule False)
      show "\<forall>m\<in>set seg. visited (heap ?s1 m)" using snoc.prems(3) mn by auto
      show "links (heap ?s1) (hd_a # seg)" using l' by simp
      show "\<forall>x\<in>set seg. end_identifier (heap ?s1 x) \<noteq> 1" using snoc.prems(5) by simp
      show "end_identifier (heap ?s1 hd_a) = 1" using snoc.prems(6) by simp
      show "end_identifier (heap ?s1 (tail ?s1)) = - 1" using snoc.prems(7) by simp
    qed
    have "?s1\<lparr>heap := clear (heap ?s1) (set seg)\<rparr> = s\<lparr>heap := clear (heap s) (set (seg @ [m]))\<rparr>"
      by (simp add: clear_clear)
    with step ih show ?thesis by simp
  qed
qed

lemma index_card_le:
  assumes "sieve_wf s xs"
  shows "card (dom (Nodes s)) \<le> length xs"
proof -
  let ?f = "\<lambda>k. the (Nodes s k)"
  have inj: "inj_on ?f (dom (Nodes s))"
  proof (rule inj_onI)
    fix k k' assume "k \<in> dom (Nodes s)" "k' \<in> dom (Nodes s)" "?f k = ?f k'"
    then obtain a where "Nodes s k = Some a" "Nodes s k' = Some a" by auto
    with assms show "k = k'" unfolding sieve_wf_def by metis
  qed
  have sub: "?f ` dom (Nodes s) \<subseteq> set xs"
    using assms unfolding sieve_wf_def by auto
  have "card (dom (Nodes s)) = card (?f ` dom (Nodes s))"
    using inj by (simp add: card_image)
  also have "\<dots> \<le> card (set xs)" using sub by (simp add: card_mono)
  also have "\<dots> \<le> length xs" by (rule card_length)
  finally show ?thesis .
qed

lemma link_block_result:
  assumes wf: "sieve_wf s ys"
  defines "new \<equiv> free s"
  defines "x1 \<equiv> hd (ys @ [tail s])"
  shows "link_block zk s k d = Inr (s\<lparr>
      heap := (heap s)
        (new := \<lparr>key = k, end_identifier = 0, nxt = Some x1, prv = Some (head s), val = d,
                 visited = False\<rparr>,
         x1 := (heap s x1)\<lparr>prv := Some new\<rparr>,
         head s := (heap s (head s))\<lparr>nxt := Some new\<rparr>),
      free := Suc new,
      Nodes := (Nodes s)(k \<mapsto> new)\<rparr>)"
proof -
  obtain rest where zs: "ys @ [tail s] = x1 # rest"
    unfolding x1_def by (cases "ys @ [tail s]") auto
  from wf have l: "links (heap s) (head s # x1 # rest)" and d: "distinct (head s # x1 # rest)"
    and e: "end_identifier (heap s (head s)) = 1"
    and fr: "\<forall>x\<in>set (head s # x1 # rest). x < free s"
    unfolding sieve_wf_def zs[symmetric] by auto
  from l have nh: "nxt (heap s (head s)) = Some x1" by simp
  from d have ne: "x1 \<noteq> head s" by auto
  from fr have f1: "new \<noteq> head s" "new \<noteq> x1" unfolding new_def by auto
  have gh: "getHead s = Inr (head s)" using e by (simp add: getHead_def)
  show ?thesis
    unfolding link_block_def gh
    using nh ne f1
    apply (simp add: insertNode_def Let_def NewNode_def zero_node_def new_def[symmetric])
    apply (rule Sieve.equality)
    apply (simp_all add: fun_eq_iff)
    done
qed

lemma wf_link:
  fixes s :: "('k, 'v) Sieve" and k :: 'k and d :: "'v option"
  assumes wf: "sieve_wf s ys"
  defines "new \<equiv> free s"
  defines "x1 \<equiv> hd (ys @ [tail s])"
  defines "h' \<equiv> (heap s)
        (new := \<lparr>key = k, end_identifier = 0, nxt = Some x1, prv = Some (head s), val = d,
                 visited = False\<rparr>,
         x1 := (heap s x1)\<lparr>prv := Some new\<rparr>,
         head s := (heap s (head s))\<lparr>nxt := Some new\<rparr>)"
  shows "sieve_wf (s\<lparr>heap := h', free := Suc new, Nodes := (Nodes s)(k \<mapsto> new)\<rparr>) (new # ys)"
proof -
  obtain rest where zs: "ys @ [tail s] = x1 # rest"
    unfolding x1_def by (cases "ys @ [tail s]") auto
  from wf have l: "links (heap s) (head s # x1 # rest)" and d: "distinct (head s # x1 # rest)"
    and fr: "\<forall>x\<in>set (head s # x1 # rest). x < free s"
    unfolding sieve_wf_def zs[symmetric] by auto
  from d have ne: "x1 \<noteq> head s" "head s \<notin> set rest" "x1 \<notin> set rest" by auto
  from fr have f1: "new \<noteq> head s" "new \<noteq> x1" "new \<notin> set rest" unfolding new_def by auto
  have ei: "\<And>a. a \<noteq> new \<Longrightarrow> end_identifier (h' a) = end_identifier (heap s a)"
    and ky: "\<And>a. a \<noteq> new \<Longrightarrow> key (h' a) = key (heap s a)"
    unfolding h'_def by auto
  have l1: "links h' (x1 # rest) = links (heap s) (x1 # rest)"
  proof (rule links_frame)
    show "\<forall>a\<in>set (butlast (x1 # rest)). nxt (h' a) = nxt (heap s a)"
    proof
      fix a assume "a \<in> set (butlast (x1 # rest))"
      then have "a \<in> set (x1 # rest)" by (rule in_set_butlastD)
      then have "a \<noteq> head s" "a \<noteq> new" using ne f1 by auto
      then show "nxt (h' a) = nxt (heap s a)" unfolding h'_def by auto
    qed
    show "\<forall>b\<in>set (tl (x1 # rest)). prv (h' b) = prv (heap s b)"
      using ne f1 unfolding h'_def by auto
  qed
  have l2: "links h' (head s # new # x1 # rest)"
    using l l1 ne f1 by (simp add: h'_def)
  have dist: "distinct (head s # new # x1 # rest)" using d f1 by auto
  have zs': "(new # ys) @ [tail s] = new # x1 # rest" using zs by simp
  let ?s' = "s\<lparr>heap := h', free := Suc new, Nodes := (Nodes s)(k \<mapsto> new)\<rparr>"
  have c1: "distinct (head ?s' # (new # ys) @ [tail ?s'])" using dist zs' by simp
  have c2: "links (heap ?s') (head ?s' # (new # ys) @ [tail ?s'])" using l2 zs' by simp
  have c3: "end_identifier (heap ?s' (head ?s')) = 1"
    using wf f1 ei[of "head s"] by (simp add: sieve_wf_def)
  have tn: "tail s \<noteq> new" using fr zs unfolding new_def
    by (metis append_is_Nil_conv f1(2) f1(3) last_in_set last_snoc list.distinct(1) new_def set_ConsD)
  have c4: "end_identifier (heap ?s' (tail ?s')) = - 1"
    using wf tn ei[of "tail s"] by (simp add: sieve_wf_def)
  have ysn: "new \<notin> set ys" using f1 zs
    by (metis Un_iff list.set_intros(1) list.set_intros(2) set_ConsD set_append)
  have c5: "\<forall>x\<in>set (new # ys). end_identifier (heap ?s' x) = 0"
  proof
    fix x assume "x \<in> set (new # ys)"
    then consider "x = new" | "x \<in> set ys" "x \<noteq> new" using ysn by auto
    then show "end_identifier (heap ?s' x) = 0"
    proof cases
      case 1
      then show ?thesis using f1 by (simp add: h'_def)
    next
      case 2
      then show ?thesis using wf ei[of x] by (simp add: sieve_wf_def)
    qed
  qed
  have c6: "\<forall>x\<in>set (head ?s' # (new # ys) @ [tail ?s']). x < free ?s'"
    using wf by (auto simp: sieve_wf_def new_def less_Suc_eq)
  have c7: "finite (dom (Nodes ?s'))" using wf by (simp add: sieve_wf_def)
  have c8: "\<forall>k' a. Nodes ?s' k' = Some a \<longrightarrow> a \<in> set (new # ys) \<and> key (heap ?s' a) = k'"
  proof (intro allI impI)
    fix k' a assume a: "Nodes ?s' k' = Some a"
    show "a \<in> set (new # ys) \<and> key (heap ?s' a) = k'"
    proof (cases "k' = k")
      case True
      with a have "a = new" by simp
      then show ?thesis using True f1 by (simp add: h'_def)
    next
      case False
      with a have "Nodes s k' = Some a" by simp
      with wf have "a \<in> set ys" "key (heap s a) = k'" by (auto simp: sieve_wf_def)
      moreover from this ysn have "a \<noteq> new" by auto
      ultimately show ?thesis using ky[of a] by simp
    qed
  qed
  show ?thesis
    unfolding sieve_wf_def using c1 c2 c3 c4 c5 c6 c7 c8 by blast
qed

lemmas sieve_defs = NewSieve_def zero_node_def NewNode_def getHand_def getHead_def getTail_def
  deleteNode_def insertNode_def evict_block_def sieve_Insert_def sieve_Get_def link_block_def Let_def

lemma sieve_a_reached:
  "NewSieve [] 2 = Inr sieve_new2 \<and> sieve_Insert [] sieve_new2 ''a'' (Some 1) = Some (Inr sieve_a)"
  apply (simp add: sieve_defs sieve_new2_def sieve_a_def)
  apply (rule ext)
  apply simp
  done

lemma sieve_a_wf: "sieve_wf sieve_a [2]"
  by (auto simp: sieve_wf_def sieve_a_def zero_node_def split: if_splits)

text \<open>
  Claim C10.  In a well-formed state, \<open>Insert\<close> of a key that is already in the index,
  with fewer keys in the index than the capacity, returns and leaves this state: a new
  node (the next free address) is linked right after the head sentinel, in front of all
  nodes \<open>xs\<close> linked before, which stay linked; the old node of the key is one of them, is
  not the new node, and keeps its key, value and visited bit; the new node carries the
  key and the inserted value and is not visited; the index points the key to the new
  node and is otherwise unchanged; and the list has more linked nodes than the index has
  keys.
\<close>

theorem sieve_Insert_resident_below_capacity:
  assumes wf: "sieve_wf s xs" and res: "Nodes s k = Some old"
      and below: "int (card (dom (Nodes s))) < Capacity s"
  shows "\<exists>s'. sieve_Insert zk s k d = Some (Inr s')
      \<and> sieve_wf s' (free s # xs)
      \<and> old \<in> set xs \<and> free s \<noteq> old
      \<and> Nodes s' = (Nodes s)(k \<mapsto> free s)
      \<and> key (heap s' (free s)) = k \<and> val (heap s' (free s)) = d
      \<and> \<not> visited (heap s' (free s))
      \<and> key (heap s' old) = k \<and> val (heap s' old) = val (heap s old)
      \<and> visited (heap s' old) = visited (heap s old)
      \<and> card (dom (Nodes s')) < length (free s # xs)"
proof -
  define new where "new = free s"
  define x1 where "x1 = hd (xs @ [tail s])"
  define h' where "h' = (heap s)
        (new := \<lparr>key = k, end_identifier = 0, nxt = Some x1, prv = Some (head s), val = d,
                 visited = False\<rparr>,
         x1 := (heap s x1)\<lparr>prv := Some new\<rparr>,
         head s := (heap s (head s))\<lparr>nxt := Some new\<rparr>)"
  define s' where "s' = s\<lparr>heap := h', free := Suc new, Nodes := (Nodes s)(k \<mapsto> new)\<rparr>"
  have ins: "sieve_Insert zk s k d = Some (Inr s')"
    using below link_block_result[OF wf, of zk k d]
    by (simp add: sieve_Insert_def s'_def h'_def new_def x1_def)
  have wf': "sieve_wf s' (free s # xs)"
    using wf_link[OF wf, of k d] by (simp add: s'_def h'_def new_def x1_def)
  from wf res have old: "old \<in> set xs" "key (heap s old) = k" by (auto simp: sieve_wf_def)
  from wf old have oldlt: "old < free s" "old \<noteq> head s" by (auto simp: sieve_wf_def)
  then have on: "new \<noteq> old" by (simp add: new_def)
  have nh: "new \<noteq> head s" using wf by (auto simp: sieve_wf_def new_def)
  have nx: "new \<noteq> x1"
  proof -
    have "x1 \<in> set (xs @ [tail s])" unfolding x1_def by (rule hd_in_set) simp
    with wf have "x1 < free s" by (auto simp: sieve_wf_def)
    then show ?thesis by (simp add: new_def)
  qed
  have newf: "key (h' new) = k" "val (h' new) = d" "\<not> visited (h' new)"
    using nh nx by (simp_all add: h'_def)
  have oldf: "key (h' old) = k" "val (h' old) = val (heap s old)"
    "visited (h' old) = visited (heap s old)"
    using on oldlt old by (auto simp: h'_def)
  have kd: "dom ((Nodes s)(k \<mapsto> new)) = dom (Nodes s)" using res by auto
  have "dom (Nodes s') = dom (Nodes s)" using kd by (simp add: s'_def del: dom_fun_upd)
  then have "card (dom (Nodes s')) \<le> length xs"
    using index_card_le[OF wf] by simp
  then have cd: "card (dom (Nodes s')) < length (free s # xs)" by simp
  show ?thesis
    using ins wf' old on newf oldf cd by (auto simp: s'_def new_def)
qed

text \<open>The claim at the state after \<open>NewSieve(2)\<close> and \<open>Insert("a", 1)\<close>: a second
  \<open>Insert("a", 7)\<close> links node 3 in front of node 2 and the index holds one key.\<close>

theorem sieve_Insert_resident_below_capacity_witness:
  "sieve_wf sieve_a [2] \<and> Nodes sieve_a ''a'' = Some 2
   \<and> int (card (dom (Nodes sieve_a))) < Capacity sieve_a
   \<and> (\<exists>s'. sieve_Insert [] sieve_a ''a'' (Some 7) = Some (Inr s')
         \<and> sieve_wf s' [3, 2] \<and> Nodes s' = [''a'' \<mapsto> 3]
         \<and> val (heap s' 3) = Some 7 \<and> val (heap s' 2) = Some 1
         \<and> card (dom (Nodes s')) < length [3, 2 :: nat])"
proof -
  have r: "Nodes sieve_a ''a'' = Some 2" by (simp add: sieve_a_def)
  have b: "int (card (dom (Nodes sieve_a))) < Capacity sieve_a" by (simp add: sieve_a_def)
  have f: "free sieve_a = 3" by (simp add: sieve_a_def)
  have v: "val (heap sieve_a 2) = Some 1" by (simp add: sieve_a_def)
  have n: "(Nodes sieve_a)(''a'' \<mapsto> 3) = [''a'' \<mapsto> 3]" by (simp add: sieve_a_def)
  from sieve_Insert_resident_below_capacity[OF sieve_a_wf r b, of "[]" "Some 7"]
  have "\<exists>s'. sieve_Insert [] sieve_a ''a'' (Some 7) = Some (Inr s')
         \<and> sieve_wf s' [3, 2] \<and> Nodes s' = [''a'' \<mapsto> 3]
         \<and> val (heap s' 3) = Some 7 \<and> val (heap s' 2) = Some 1
         \<and> card (dom (Nodes s')) < length [3, 2 :: nat]"
    by (simp add: f v n) blast
  then show ?thesis using sieve_a_wf r b by simp
qed

subsection \<open>SIEVE: eviction\<close>

lemma links_appendD1: "links h (as @ bs) \<Longrightarrow> links h as"
  by (simp add: links_append)

lemma links_appendD2: "links h (as @ bs) \<Longrightarrow> links h bs"
  by (simp add: links_append)

lemma wf_clear [simp]: "sieve_wf (s\<lparr>heap := clear (heap s) A\<rparr>) xs = sieve_wf s xs"
  by (simp add: sieve_wf_def)

lemma sweep_prefix_found:
  assumes wf: "sieve_wf s xs" and x: "xs = seg @ post"
      and ex: "\<exists>x\<in>set seg. \<not> visited (heap s x)"
  shows "\<exists>p1 u mid. seg = p1 @ u # mid \<and> \<not> visited (heap s u)
      \<and> (\<forall>m\<in>set mid. visited (heap s m))
      \<and> sweep s (Some (last seg)) = Some (Inr (s\<lparr>heap := clear (heap s) (set mid)\<rparr>, u))"
proof -
  from split_list_last_prop[OF ex] obtain p1 u mid where seg: "seg = p1 @ u # mid"
    and nu: "\<not> visited (heap s u)" and vm: "\<forall>m\<in>set mid. visited (heap s m)" by auto
  have e: "head s # xs @ [tail s] = (head s # p1) @ ((u # mid) @ (post @ [tail s]))"
    using x seg by simp
  from wf have "links (heap s) (head s # xs @ [tail s])" by (simp add: sieve_wf_def)
  then have "links (heap s) ((head s # p1) @ ((u # mid) @ (post @ [tail s])))"
    by (simp only: e)
  then have "links (heap s) ((u # mid) @ (post @ [tail s]))" by (rule links_appendD2)
  then have l: "links (heap s) (u # mid)" by (rule links_appendD1)
  from wf have "distinct xs" by (simp add: sieve_wf_def)
  then have dm: "distinct mid" using x seg by simp
  from wf have "\<forall>y\<in>set xs. end_identifier (heap s y) = 0" by (simp add: sieve_wf_def)
  then have ei: "\<forall>y\<in>set (u # mid). end_identifier (heap s y) \<noteq> 1" using x seg by auto
  have "last seg = last (u # mid)" using seg by simp
  with sweep_stop[OF dm vm nu l ei] seg nu vm show ?thesis by auto
qed

lemma sweep_prefix_wrap:
  assumes wf: "sieve_wf s xs" and x: "xs = seg @ post" and ne: "seg \<noteq> []"
      and av: "\<forall>x\<in>set seg. visited (heap s x)"
  shows "sweep s (Some (last seg)) =
         sweep (s\<lparr>heap := clear (heap s) (set seg)\<rparr>) (Some (last xs))"
proof -
  have e: "head s # xs @ [tail s] = (head s # seg) @ (post @ [tail s])" using x by simp
  from wf have lk: "links (heap s) (head s # xs @ [tail s])" by (simp add: sieve_wf_def)
  then have "links (heap s) ((head s # seg) @ (post @ [tail s]))" by (simp only: e)
  then have l: "links (heap s) (head s # seg)" by (rule links_appendD1)
  from wf have "distinct xs" by (simp add: sieve_wf_def)
  then have ds: "distinct seg" using x by simp
  from wf have "\<forall>y\<in>set xs. end_identifier (heap s y) = 0" by (simp add: sieve_wf_def)
  then have ei: "\<forall>y\<in>set seg. end_identifier (heap s y) \<noteq> 1" using x by auto
  from wf have eh: "end_identifier (heap s (head s)) = 1"
    and et: "end_identifier (heap s (tail s)) = - 1" by (simp_all add: sieve_wf_def)
  have xne: "xs \<noteq> []" using x ne by simp
  have "links (heap s) ((head s # xs) @ [tail s])" using lk by simp
  then have "prv (heap s (hd [tail s])) = Some (last (head s # xs))"
    unfolding links_append by simp
  then have pt: "prv (heap s (tail s)) = Some (last xs)" using xne by simp
  from sweep_wrap[OF ds ne av l ei eh et] pt show ?thesis by simp
qed

lemma split_eq:
  assumes d: "distinct (seg @ post)" and e: "seg @ post = p1 @ u # mid"
      and u: "u \<in> set seg" and dj: "set mid \<inter> set seg = {}"
  shows "seg = p1 @ [u] \<and> mid = post"
proof -
  from u obtain a b where seg: "seg = a @ u # b" by (auto dest: split_list)
  have e': "a @ u # (b @ post) = p1 @ u # mid" using e seg by simp
  have ua: "u \<notin> set a" and ub: "u \<notin> set (b @ post)" using d seg by auto
  from e' ua ub have "a = p1 \<and> b @ post = mid" by (simp add: append_Cons_eq_iff)
  moreover from this dj seg have "b = []" by (cases b) auto
  ultimately show ?thesis using seg by simp
qed

lemma sweep_result:
  assumes wf: "sieve_wf s xs" and x: "xs = seg @ post" and ne: "seg \<noteq> []"
  shows "\<exists>u A. sweep s (Some (last seg)) = Some (Inr (s\<lparr>heap := clear (heap s) A\<rparr>, u))
      \<and> u \<in> set xs \<and> A \<subseteq> set xs
      \<and> ((\<exists>y\<in>set xs. \<not> visited (heap s y)) \<longrightarrow> \<not> visited (heap s u))
      \<and> ((\<forall>y\<in>set xs. visited (heap s y)) \<longrightarrow> A = set xs \<and> u = last seg)"
proof (cases "\<exists>y\<in>set seg. \<not> visited (heap s y)")
  case True
  from sweep_prefix_found[OF wf x True] obtain p1 u mid where
    seg: "seg = p1 @ u # mid" and nu: "\<not> visited (heap s u)"
    and sw: "sweep s (Some (last seg)) = Some (Inr (s\<lparr>heap := clear (heap s) (set mid)\<rparr>, u))"
    by blast
  have "u \<in> set xs" "set mid \<subseteq> set xs" using x seg by auto
  with sw nu show ?thesis by blast
next
  case False
  then have av: "\<forall>y\<in>set seg. visited (heap s y)" by simp
  let ?s1 = "s\<lparr>heap := clear (heap s) (set seg)\<rparr>"
  have w: "sweep s (Some (last seg)) = sweep ?s1 (Some (last xs))"
    by (rule sweep_prefix_wrap[OF wf x ne av])
  have wf1: "sieve_wf ?s1 xs" using wf by simp
  have x1: "xs = xs @ []" by simp
  have "last seg \<in> set seg" using ne by simp
  then have ex1: "\<exists>y\<in>set xs. \<not> visited (heap ?s1 y)" using x by auto
  from sweep_prefix_found[OF wf1 x1 ex1] obtain p1 u mid where
    xs: "xs = p1 @ u # mid" and nu: "\<not> visited (heap ?s1 u)"
    and vm: "\<forall>m\<in>set mid. visited (heap ?s1 m)"
    and sw: "sweep ?s1 (Some (last xs)) =
             Some (Inr (?s1\<lparr>heap := clear (heap ?s1) (set mid)\<rparr>, u))"
    by blast
  have st: "?s1\<lparr>heap := clear (heap ?s1) (set mid)\<rparr> = s\<lparr>heap := clear (heap s) (set seg \<union> set mid)\<rparr>"
    by (simp add: clear_clear)
  have sw': "sweep s (Some (last seg)) = Some (Inr (s\<lparr>heap := clear (heap s) (set seg \<union> set mid)\<rparr>, u))"
    using w sw st by simp
  have uin: "u \<in> set xs" using xs by simp
  have "set mid \<subseteq> set xs" using xs by auto
  moreover have "set seg \<subseteq> set xs" using x by auto
  ultimately have sub: "set seg \<union> set mid \<subseteq> set xs" by blast
  from wf have dx: "distinct (seg @ post)" using x by (simp add: sieve_wf_def)
  have dj: "set mid \<inter> set seg = {}" using vm by auto
  have key: "visited (heap s u) \<Longrightarrow> seg = p1 @ [u] \<and> mid = post"
  proof -
    assume "visited (heap s u)"
    with nu have "u \<in> set seg" by simp
    with split_eq[OF dx _ _ dj, of p1 u] x xs show ?thesis by simp
  qed
  have f1: "(\<exists>y\<in>set xs. \<not> visited (heap s y)) \<longrightarrow> \<not> visited (heap s u)"
  proof (intro impI notI)
    assume e: "\<exists>y\<in>set xs. \<not> visited (heap s y)" and v: "visited (heap s u)"
    from key[OF v] have mp: "mid = post" by simp
    from e obtain y where y: "y \<in> set xs" "\<not> visited (heap s y)" by blast
    with av x have "y \<in> set post" by auto
    with mp vm have "visited (heap s y)" by simp
    with y show False by simp
  qed
  have f2: "(\<forall>y\<in>set xs. visited (heap s y)) \<longrightarrow> set seg \<union> set mid = set xs \<and> u = last seg"
  proof
    assume "\<forall>y\<in>set xs. visited (heap s y)"
    with uin have "visited (heap s u)" by simp
    from key[OF this] x show "set seg \<union> set mid = set xs \<and> u = last seg" by auto
  qed
  from sw' uin sub f1 f2 show ?thesis by blast
qed

lemma wf_prv_tail:
  assumes wf: "sieve_wf s xs" and xne: "xs \<noteq> []"
  shows "prv (heap s (tail s)) = Some (last xs)"
proof -
  from wf have "links (heap s) ((head s # xs) @ [tail s])" by (simp add: sieve_wf_def)
  then have "prv (heap s (hd [tail s])) = Some (last (head s # xs))"
    unfolding links_append by simp
  then show ?thesis using xne by simp
qed

lemma wf_neighbours:
  assumes wf: "sieve_wf s xs" and x: "xs = l @ u # r"
  defines "p \<equiv> last (head s # l)" and "n \<equiv> hd (r @ [tail s])"
  shows "prv (heap s u) = Some p" "nxt (heap s u) = Some n" "nxt (heap s p) = Some u"
    "prv (heap s n) = Some u"
    "p \<noteq> n" "p \<noteq> u" "n \<noteq> u" "p \<in> set (head s # l)" "n \<in> set (r @ [tail s])"
proof -
  from wf have lk: "links (heap s) (head s # xs @ [tail s])"
    and d: "distinct (head s # xs @ [tail s])" by (simp_all add: sieve_wf_def)
  have e1: "head s # xs @ [tail s] = (head s # l) @ (u # r @ [tail s])" using x by simp
  have e2: "head s # xs @ [tail s] = (head s # l @ [u]) @ (r @ [tail s])" using x by simp
  from lk have "links (heap s) ((head s # l) @ (u # r @ [tail s]))" by (simp only: e1)
  then have a: "nxt (heap s (last (head s # l))) = Some (hd (u # r @ [tail s]))
      \<and> prv (heap s (hd (u # r @ [tail s]))) = Some (last (head s # l))"
    unfolding links_append by blast
  from lk have "links (heap s) ((head s # l @ [u]) @ (r @ [tail s]))" by (simp only: e2)
  then have b: "nxt (heap s (last (head s # l @ [u]))) = Some (hd (r @ [tail s]))
      \<and> prv (heap s (hd (r @ [tail s]))) = Some (last (head s # l @ [u]))"
    unfolding links_append by blast
  show "prv (heap s u) = Some p" using a by (simp add: p_def)
  show "nxt (heap s p) = Some u" using a by (simp add: p_def)
  show "nxt (heap s u) = Some n" using b by (simp add: n_def)
  show "prv (heap s n) = Some u" using b by (simp add: n_def)
  have pin: "p \<in> set (head s # l)" unfolding p_def by (rule last_in_set) simp
  have nin: "n \<in> set (r @ [tail s])" unfolding n_def by (rule hd_in_set) simp
  show "p \<in> set (head s # l)" by (rule pin)
  show "n \<in> set (r @ [tail s])" by (rule nin)
  from d have d': "distinct ((head s # l) @ u # (r @ [tail s]))" using x by simp
  then have dj: "set (head s # l) \<inter> set (r @ [tail s]) = {}"
    and ul: "u \<notin> set (head s # l)" and ur: "u \<notin> set (r @ [tail s])"
    unfolding distinct_append by auto
  show "p \<noteq> n" using pin nin dj by blast
  show "p \<noteq> u" using pin ul by blast
  show "n \<noteq> u" using nin ur by blast
qed

lemma evict_start:
  assumes wf: "sieve_wf s xs" and ho: "hand_ok s xs" and xne: "xs \<noteq> []"
  shows "\<exists>h0 seg post.
      (case getHand s of
         None \<Rightarrow> getTail s
       | Some a \<Rightarrow> if end_identifier (heap s a) = 1 then getTail s else Inr a) = Inr h0
      \<and> prv (heap s h0) = Some (last seg) \<and> xs = seg @ post \<and> seg \<noteq> []
      \<and> (case hand s of
            None \<Rightarrow> last seg = last xs
          | Some h \<Rightarrow> if h = head s then last seg = last xs
                      else prv (heap s h) = Some (last seg))"
proof -
  from wf have et: "end_identifier (heap s (tail s)) = - 1"
    and eh: "end_identifier (heap s (head s)) = 1"
    and e0: "\<forall>y\<in>set xs. end_identifier (heap s y) = 0" by (simp_all add: sieve_wf_def)
  have gt: "getTail s = Inr (tail s)" using et by (simp add: getTail_def)
  have pt: "prv (heap s (tail s)) = Some (last xs)" by (rule wf_prv_tail[OF wf xne])
  show ?thesis
  proof (cases "hand s")
    case None
    have "(case getHand s of
         None \<Rightarrow> getTail s
       | Some a \<Rightarrow> if end_identifier (heap s a) = 1 then getTail s else Inr a) = Inr (tail s)"
      using None gt by (simp add: getHand_def)
    moreover have "xs = xs @ []" by simp
    ultimately show ?thesis using pt xne None by (intro exI[of _ "tail s"] exI[of _ xs] exI[of _ "[]"]) simp
  next
    case (Some h)
    show ?thesis
    proof (cases "h = head s")
      case True
      have "(case getHand s of
         None \<Rightarrow> getTail s
       | Some a \<Rightarrow> if end_identifier (heap s a) = 1 then getTail s else Inr a) = Inr (tail s)"
        using Some True gt eh by (simp add: getHand_def)
      moreover have "xs = xs @ []" by simp
      ultimately show ?thesis using pt xne Some True
        by (intro exI[of _ "tail s"] exI[of _ xs] exI[of _ "[]"]) simp
    next
      case False
      with ho Some have hin: "h \<in> set xs" and hhd: "h \<noteq> hd xs" by (auto simp: hand_ok_def)
      from hin obtain pre post where x: "xs = pre @ h # post" by (auto dest: split_list)
      have pne: "pre \<noteq> []" using hhd x by (cases pre) auto
      from e0 hin have "end_identifier (heap s h) = 0" by simp
      then have c: "(case getHand s of
         None \<Rightarrow> getTail s
       | Some a \<Rightarrow> if end_identifier (heap s a) = 1 then getTail s else Inr a) = Inr h"
        using Some by (simp add: getHand_def)
      have "prv (heap s h) = Some (last (head s # pre))"
        by (rule wf_neighbours(1)[OF wf x])
      then have ph: "prv (heap s h) = Some (last pre)" using pne by simp
      show ?thesis using c ph x pne Some False
        by (intro exI[of _ h] exI[of _ pre] exI[of _ "h # post"]) simp
    qed
  qed
qed

lemma last_notin_butlast: "distinct ys \<Longrightarrow> ys \<noteq> [] \<Longrightarrow> a \<in> set (butlast ys) \<Longrightarrow> a \<noteq> last ys"
proof -
  assume d: "distinct ys" and n: "ys \<noteq> []" and a: "a \<in> set (butlast ys)"
  from n have "ys = butlast ys @ [last ys]" by simp
  with d have "distinct (butlast ys @ [last ys])" by simp
  then have "last ys \<notin> set (butlast ys)" by simp
  with a show ?thesis by auto
qed

lemma links_appendI:
  "links h as \<Longrightarrow> links h bs \<Longrightarrow>
   nxt (h (last as)) = Some (hd bs) \<and> prv (h (hd bs)) = Some (last as) \<Longrightarrow>
   links h (as @ bs)"
  by (simp add: links_append)

lemma wf_unlink:
  fixes s :: "('k, 'v) Sieve"
  assumes wf: "sieve_wf s xs" and x: "xs = l @ u # r"
  defines "p \<equiv> last (head s # l)" and "n \<equiv> hd (r @ [tail s])"
  defines "h' \<equiv> (heap s)(p := (heap s p)\<lparr>nxt := Some n\<rparr>, n := (heap s n)\<lparr>prv := Some p\<rparr>)"
  shows "sieve_wf (s\<lparr>heap := h', hand := hp, Nodes := (Nodes s)(key (heap s u) := None)\<rparr>) (l @ r)"
proof -
  let ?L = "head s # l" and ?R = "r @ [tail s]"
  note nb = wf_neighbours[OF wf x, folded p_def n_def]
  from wf have lk: "links (heap s) (head s # xs @ [tail s])"
    and d: "distinct (head s # xs @ [tail s])" by (simp_all add: sieve_wf_def)
  have e1: "head s # xs @ [tail s] = ?L @ (u # ?R)" using x by simp
  from d have d': "distinct (?L @ u # ?R)" using x by simp
  then have dL: "distinct ?L" and dR: "distinct ?R"
    and dj: "set ?L \<inter> set ?R = {}"
    unfolding distinct_append by auto
  from lk have lk': "links (heap s) (?L @ (u # ?R))" by (simp only: e1)
  then have lL: "links (heap s) ?L" by (rule links_appendD1)
  from lk' have "links (heap s) (u # ?R)" by (rule links_appendD2)
  then have "links (heap s) ([u] @ ?R)" by simp
  then have lR: "links (heap s) ?R" by (rule links_appendD2)
  have pin: "p \<in> set ?L" and nin: "n \<in> set ?R" using nb by auto
  have pn: "p \<noteq> n" using nb by auto
  have fld: "\<And>a. end_identifier (h' a) = end_identifier (heap s a)"
    "\<And>a. key (h' a) = key (heap s a)"
    unfolding h'_def by auto
  have nx: "\<And>a. a \<noteq> p \<Longrightarrow> nxt (h' a) = nxt (heap s a)"
    and pv: "\<And>a. a \<noteq> n \<Longrightarrow> prv (h' a) = prv (heap s a)"
    unfolding h'_def by auto
  have l1: "links h' ?L = links (heap s) ?L"
  proof (rule links_frame)
    show "\<forall>a\<in>set (butlast ?L). nxt (h' a) = nxt (heap s a)"
    proof
      fix a assume a: "a \<in> set (butlast ?L)"
      have "a \<noteq> last ?L" by (rule last_notin_butlast[OF dL _ a]) simp
      then show "nxt (h' a) = nxt (heap s a)" by (intro nx) (simp add: p_def)
    qed
    show "\<forall>b\<in>set (tl ?L). prv (h' b) = prv (heap s b)"
    proof
      fix b assume "b \<in> set (tl ?L)"
      then have "b \<in> set ?L" by simp
      with nin dj have "b \<noteq> n" by blast
      then show "prv (h' b) = prv (heap s b)" by (rule pv)
    qed
  qed
  have l2: "links h' ?R = links (heap s) ?R"
  proof (rule links_frame)
    show "\<forall>a\<in>set (butlast ?R). nxt (h' a) = nxt (heap s a)"
    proof
      fix a assume "a \<in> set (butlast ?R)"
      then have "a \<in> set ?R" by (rule in_set_butlastD)
      with pin dj have "a \<noteq> p" by blast
      then show "nxt (h' a) = nxt (heap s a)" by (rule nx)
    qed
    show "\<forall>b\<in>set (tl ?R). prv (h' b) = prv (heap s b)"
    proof
      fix b assume b: "b \<in> set (tl ?R)"
      obtain r' where r': "?R = n # r'" unfolding n_def by (cases ?R) auto
      with dR b have "b \<noteq> n" by auto
      then show "prv (h' b) = prv (heap s b)" by (rule pv)
    qed
  qed
  have lp: "last ?L = p" by (simp only: p_def)
  have hn: "hd ?R = n" by (simp only: n_def)
  have j: "nxt (h' p) = Some n \<and> prv (h' n) = Some p"
    using pn by (simp add: h'_def)
  have "links h' (?L @ ?R)"
  proof (rule links_appendI)
    show "links h' ?L" using l1 lL by simp
    show "links h' ?R" using l2 lR by simp
    show "nxt (h' (last ?L)) = Some (hd ?R) \<and> prv (h' (hd ?R)) = Some (last ?L)"
      using j by (simp only: lp hn)
  qed
  then have c2: "links h' (head s # (l @ r) @ [tail s])" by simp
  have c1: "distinct (head s # (l @ r) @ [tail s])" using d' by auto
  let ?s' = "s\<lparr>heap := h', hand := hp, Nodes := (Nodes s)(key (heap s u) := None)\<rparr>"
  have c3: "end_identifier (heap ?s' (head ?s')) = 1"
    and c4: "end_identifier (heap ?s' (tail ?s')) = - 1"
    using wf by (simp_all add: sieve_wf_def fld)
  have c5: "\<forall>y\<in>set (l @ r). end_identifier (heap ?s' y) = 0"
    using wf x by (simp add: sieve_wf_def fld)
  have c6: "\<forall>y\<in>set (head ?s' # (l @ r) @ [tail ?s']). y < free ?s'"
    using wf x by (simp add: sieve_wf_def)
  have c7: "finite (dom (Nodes ?s'))" using wf by (simp add: sieve_wf_def)
  have c8: "\<forall>k' a. Nodes ?s' k' = Some a \<longrightarrow> a \<in> set (l @ r) \<and> key (heap ?s' a) = k'"
  proof (intro allI impI)
    fix k' a assume a: "Nodes ?s' k' = Some a"
    then have k': "k' \<noteq> key (heap s u)" and "Nodes s k' = Some a"
      by (auto split: if_splits)
    with wf have ax: "a \<in> set xs" and ak: "key (heap s a) = k'" by (auto simp: sieve_wf_def)
    from ak k' have "a \<noteq> u" by auto
    with ax x have "a \<in> set (l @ r)" by auto
    then show "a \<in> set (l @ r) \<and> key (heap ?s' a) = k'" using ak by (simp add: fld)
  qed
  show ?thesis
    unfolding sieve_wf_def using c1 c2 c3 c4 c5 c6 c7 c8 by simp
qed

lemma evict_block_result:
  fixes s :: "('k, 'v) Sieve"
  assumes wf: "sieve_wf s xs" and ho: "hand_ok s xs" and xne: "xs \<noteq> []"
  shows "\<exists>u A l r s1.
      xs = l @ u # r \<and> A \<subseteq> set xs
      \<and> evict_block s = Some (Inr s1)
      \<and> sieve_wf s1 (l @ r)
      \<and> hand s1 = Some (last (head s # l))
      \<and> Nodes s1 = (Nodes s)(key (heap s u) := None)
      \<and> free s1 = free s \<and> head s1 = head s \<and> tail s1 = tail s \<and> Capacity s1 = Capacity s
      \<and> (\<forall>a. visited (heap s1 a) = (a \<notin> A \<and> visited (heap s a)))
      \<and> (\<forall>a. key (heap s1 a) = key (heap s a) \<and> val (heap s1 a) = val (heap s a))
      \<and> ((\<exists>y\<in>set xs. \<not> visited (heap s y)) \<longrightarrow> \<not> visited (heap s u))
      \<and> ((\<forall>y\<in>set xs. visited (heap s y)) \<longrightarrow>
            A = set xs \<and>
            (case hand s of
               None \<Rightarrow> u = last xs
             | Some h \<Rightarrow> if h = head s then u = last xs else prv (heap s h) = Some u))"
proof -
  from evict_start[OF wf ho xne] obtain h0 seg post where
    st: "(case getHand s of
         None \<Rightarrow> getTail s
       | Some a \<Rightarrow> if end_identifier (heap s a) = 1 then getTail s else Inr a) = Inr h0"
    and ph: "prv (heap s h0) = Some (last seg)" and x: "xs = seg @ post" and sne: "seg \<noteq> []"
    and hs: "(case hand s of
            None \<Rightarrow> last seg = last xs
          | Some h \<Rightarrow> if h = head s then last seg = last xs
                      else prv (heap s h) = Some (last seg))"
    by blast
  from sweep_result[OF wf x sne] obtain u A where
    sw: "sweep s (Some (last seg)) = Some (Inr (s\<lparr>heap := clear (heap s) A\<rparr>, u))"
    and uin: "u \<in> set xs" and asub: "A \<subseteq> set xs"
    and f1: "(\<exists>y\<in>set xs. \<not> visited (heap s y)) \<longrightarrow> \<not> visited (heap s u)"
    and f2: "(\<forall>y\<in>set xs. visited (heap s y)) \<longrightarrow> A = set xs \<and> u = last seg"
    by blast
  from uin obtain l r where xl: "xs = l @ u # r" by (auto dest: split_list)
  let ?c = "s\<lparr>heap := clear (heap s) A\<rparr>"
  have wfc: "sieve_wf ?c xs" using wf by simp
  define p where "p = last (head s # l)"
  define n where "n = hd (r @ [tail s])"
  have hc: "head ?c = head s" "tail ?c = tail s" by simp_all
  note nb = wf_neighbours[OF wfc xl, unfolded hc, folded p_def n_def]
  define h' where "h' = (heap ?c)(p := (heap ?c p)\<lparr>nxt := Some n\<rparr>, n := (heap ?c n)\<lparr>prv := Some p\<rparr>)"
  define s1 where "s1 = ?c\<lparr>heap := h', hand := Some p, Nodes := (Nodes ?c)(key (heap ?c u) := None)\<rparr>"
  have wf1: "sieve_wf s1 (l @ r)"
    using wf_unlink[OF wfc xl, of "Some p"] by (simp add: s1_def h'_def p_def n_def)
  from wf uin have eu: "end_identifier (heap s u) = 0" by (simp add: sieve_wf_def)
  have pu: "prv (heap s u) = Some p" and nu: "nxt (heap s u) = Some n"
    and np: "nxt (heap s p) = Some u"
    using nb(1,2,3) by simp_all
  have ne: "p \<noteq> n" "p \<noteq> u" "n \<noteq> u" by (rule nb)+
  have del: "deleteNode (?c\<lparr>hand := Some p\<rparr>) (Some u) = Inr (?c\<lparr>hand := Some p, heap := h'\<rparr>)"
    using eu pu nu nb(5) by (simp add: deleteNode_def Let_def h'_def)
  have ku: "key (h' u) = key (heap s u)" using ne by (simp add: h'_def)
  have ev: "evict_block s = Some (Inr s1)"
    unfolding evict_block_def st
    using ph sw pu np del ku
    by (simp add: Let_def s1_def)
  have vis: "\<forall>a. visited (heap s1 a) = (a \<notin> A \<and> visited (heap s a))"
    by (auto simp: s1_def h'_def)
  have kv: "\<forall>a. key (heap s1 a) = key (heap s a) \<and> val (heap s1 a) = val (heap s a)"
    by (auto simp: s1_def h'_def)
  have f2': "(\<forall>y\<in>set xs. visited (heap s y)) \<longrightarrow>
            A = set xs \<and>
            (case hand s of
               None \<Rightarrow> u = last xs
             | Some h \<Rightarrow> if h = head s then u = last xs else prv (heap s h) = Some u)"
    using f2 hs by (auto split: option.splits if_splits)
  have misc: "hand s1 = Some (last (head s # l))" "Nodes s1 = (Nodes s)(key (heap s u) := None)"
    "free s1 = free s" "head s1 = head s" "tail s1 = tail s" "Capacity s1 = Capacity s"
    by (simp_all add: s1_def p_def)
  show ?thesis
    using xl asub ev wf1 misc vis kv f1 f2' by blast
qed

lemma link_block_wf:
  fixes s :: "('k, 'v) Sieve"
  assumes wf: "sieve_wf s ys"
  shows "\<exists>s'. link_block zk s k d = Inr s' \<and> sieve_wf s' (free s # ys)
      \<and> Nodes s' = (Nodes s)(k \<mapsto> free s) \<and> hand s' = hand s \<and> head s' = head s
      \<and> Capacity s' = Capacity s
      \<and> (\<forall>a. a \<noteq> free s \<longrightarrow> visited (heap s' a) = visited (heap s a))
      \<and> \<not> visited (heap s' (free s))"
proof -
  define new where "new = free s"
  define x1 where "x1 = hd (ys @ [tail s])"
  define h' where "h' = (heap s)
        (new := \<lparr>key = k, end_identifier = 0, nxt = Some x1, prv = Some (head s), val = d,
                 visited = False\<rparr>,
         x1 := (heap s x1)\<lparr>prv := Some new\<rparr>,
         head s := (heap s (head s))\<lparr>nxt := Some new\<rparr>)"
  define s' where "s' = s\<lparr>heap := h', free := Suc new, Nodes := (Nodes s)(k \<mapsto> new)\<rparr>"
  have r: "link_block zk s k d = Inr s'"
    using link_block_result[OF wf, of zk k d] by (simp add: s'_def h'_def new_def x1_def)
  have w: "sieve_wf s' (free s # ys)"
    using wf_link[OF wf, of k d] by (simp add: s'_def h'_def new_def x1_def)
  have nh: "new \<noteq> head s" using wf by (auto simp: sieve_wf_def new_def)
  have nx: "new \<noteq> x1"
  proof -
    have "x1 \<in> set (ys @ [tail s])" unfolding x1_def by (rule hd_in_set) simp
    with wf have "x1 < free s" by (auto simp: sieve_wf_def)
    then show ?thesis by (simp add: new_def)
  qed
  have v1: "\<forall>a. a \<noteq> free s \<longrightarrow> visited (heap s' a) = visited (heap s a)"
    by (auto simp: s'_def h'_def new_def)
  have v2: "\<not> visited (heap s' (free s))"
    using nh nx by (simp add: s'_def h'_def new_def[symmetric])
  show ?thesis using r w v1 v2 by (auto simp: s'_def new_def)
qed

lemma sieve_ab_reached:
  "sieve_run [] sieve_new2 [SInsert ''a'' (Some 1), SInsert ''b'' (Some 2), SGet ''a'', SGet ''b'']
     = Some (Inr sieve_ab)"
  apply (simp add: sieve_defs sieve_new2_def sieve_ab_def)
  apply (rule ext)
  apply simp
  done



lemma sieve_Insert_full_core:
  fixes s :: "('k, 'v) Sieve"
  assumes wf: "sieve_wf s xs" and ho: "hand_ok s xs"
      and full: "int (card (dom (Nodes s))) = Capacity s" and cap: "0 < Capacity s"
  shows "\<exists>s' v. sieve_Insert zk s k d = Some (Inr s')
      \<and> v \<in> set xs \<and> Capacity s' = Capacity s
      \<and> Nodes s' = ((Nodes s)(key (heap s v) := None))(k \<mapsto> free s)
      \<and> sieve_wf s' (free s # remove1 v xs) \<and> hand_ok s' (free s # remove1 v xs)
      \<and> ((\<exists>y\<in>set xs. \<not> visited (heap s y)) \<longrightarrow> \<not> visited (heap s v))
      \<and> ((\<forall>y\<in>set xs. visited (heap s y)) \<longrightarrow>
            (\<forall>y\<in>set (free s # remove1 v xs). \<not> visited (heap s' y)) \<and>
            (case hand s of
               None \<Rightarrow> v = last xs
             | Some h \<Rightarrow> if h = head s then v = last xs else prv (heap s h) = Some v))"
proof -
  from full cap have "card (dom (Nodes s)) \<noteq> 0" by auto
  then have "dom (Nodes s) \<noteq> {}" by auto
  then obtain k0 where "k0 \<in> dom (Nodes s)" by blast
  then obtain a0 where "Nodes s k0 = Some a0" by blast
  with wf have "a0 \<in> set xs" by (auto simp: sieve_wf_def)
  then have xne: "xs \<noteq> []" by auto
  from evict_block_result[OF wf ho xne] obtain u A l r s1 where
    xl: "xs = l @ u # r" and asub: "A \<subseteq> set xs"
    and ev: "evict_block s = Some (Inr s1)"
    and wf1: "sieve_wf s1 (l @ r)"
    and h1: "hand s1 = Some (last (head s # l))"
    and n1: "Nodes s1 = (Nodes s)(key (heap s u) := None)"
    and m1: "free s1 = free s" "head s1 = head s" and c1: "Capacity s1 = Capacity s"
    and vis: "\<forall>a. visited (heap s1 a) = (a \<notin> A \<and> visited (heap s a))"
    and f1: "(\<exists>y\<in>set xs. \<not> visited (heap s y)) \<longrightarrow> \<not> visited (heap s u)"
    and f2: "(\<forall>y\<in>set xs. visited (heap s y)) \<longrightarrow>
            A = set xs \<and>
            (case hand s of
               None \<Rightarrow> u = last xs
             | Some h \<Rightarrow> if h = head s then u = last xs else prv (heap s h) = Some u)"
    by blast
  from link_block_wf[OF wf1, of zk k d] obtain s' where
    lb: "link_block zk s1 k d = Inr s'" and wf': "sieve_wf s' (free s1 # l @ r)"
    and n': "Nodes s' = (Nodes s1)(k \<mapsto> free s1)" and h': "hand s' = hand s1"
    and hd': "head s' = head s1" and c': "Capacity s' = Capacity s1"
    and v1: "\<forall>a. a \<noteq> free s1 \<longrightarrow> visited (heap s' a) = visited (heap s1 a)"
    and v2: "\<not> visited (heap s' (free s1))"
    by blast
  from wf have dx: "distinct xs" and lt: "\<forall>y\<in>set xs. y < free s"
    by (auto simp: sieve_wf_def)
  have rm: "remove1 u xs = l @ r" using dx xl by (simp add: remove1_append)
  have ins: "sieve_Insert zk s k d = Some (Inr s')"
    using full ev lb by (simp add: sieve_Insert_def)
  have uin: "u \<in> set xs" using xl by simp
  have nodes: "Nodes s' = ((Nodes s)(key (heap s u) := None))(k \<mapsto> free s)"
    using n' n1 m1 by simp
  have wfr: "sieve_wf s' (free s # remove1 u xs)" using wf' m1 rm by simp
  have hok: "hand_ok s' (free s # remove1 u xs)"
  proof -
    let ?p = "last (head s # l)"
    have "?p \<in> set (head s # l)" by (rule last_in_set) simp
    then consider "?p = head s" | "?p \<in> set l" by auto
    then show ?thesis
    proof cases
      case 1
      then show ?thesis using h' h1 hd' m1 by (simp add: hand_ok_def)
    next
      case 2
      then have "?p \<in> set xs" using xl by simp
      with lt have "?p \<noteq> free s" by auto
      with 2 show ?thesis using h' h1 rm by (simp add: hand_ok_def)
    qed
  qed
  have allv: "(\<forall>y\<in>set xs. visited (heap s y)) \<longrightarrow>
      (\<forall>y\<in>set (free s # remove1 u xs). \<not> visited (heap s' y))"
  proof (intro impI ballI)
    fix y assume av: "\<forall>y\<in>set xs. visited (heap s y)" and y: "y \<in> set (free s # remove1 u xs)"
    from f2 av have A: "A = set xs" by simp
    show "\<not> visited (heap s' y)"
    proof (cases "y = free s")
      case True
      then show ?thesis using v2 m1 by simp
    next
      case False
      with y rm xl have "y \<in> set xs" by auto
      with A vis have "\<not> visited (heap s1 y)" by simp
      with v1 False m1 show ?thesis by simp
    qed
  qed
  have cs: "Capacity s' = Capacity s" using c' c1 by simp
  show ?thesis
    using ins uin cs nodes wfr hok f1 f2 allv by blast
qed

text \<open>
  The invariant \<open>sieve_inv\<close> holds in the state \<open>NewSieve\<close> builds and is kept by \<open>Get\<close> and
  by \<open>Insert\<close>, and \<open>Insert\<close> returns from every state that satisfies it: run from a new
  cache, no sequence of operations panics or loops.
\<close>

lemma hand_ok_link:
  assumes wf: "sieve_wf s xs" and ho: "hand_ok s xs"
      and h: "hand s' = hand s" "head s' = head s"
  shows "hand_ok s' (free s # xs)"
proof (cases "hand s")
  case None
  then show ?thesis using h by (simp add: hand_ok_def)
next
  case (Some a)
  show ?thesis
  proof (cases "a = head s")
    case True
    then show ?thesis using Some h by (simp add: hand_ok_def)
  next
    case False
    with ho Some have ain: "a \<in> set xs" by (auto simp: hand_ok_def)
    with wf have "a < free s" by (auto simp: sieve_wf_def)
    then have "a \<noteq> free s" by simp
    with ain Some h show ?thesis by (simp add: hand_ok_def)
  qed
qed

lemma NewSieve_inv: "NewSieve zk cap = Inr s \<Longrightarrow> sieve_inv s"
  by (auto simp: NewSieve_def sieve_inv_def sieve_wf_def hand_ok_def zero_node_def
      split: if_splits intro!: exI[of _ "[]"])

lemma sieve_Get_inv:
  assumes "sieve_inv s"
  shows "sieve_inv (fst (sieve_Get s k))"
proof (cases "Nodes s k")
  case None
  then show ?thesis using assms by (simp add: sieve_Get_def)
next
  case (Some a)
  from assms obtain xs where c: "0 < Capacity s" and wf: "sieve_wf s xs" and ho: "hand_ok s xs"
    by (auto simp: sieve_inv_def)
  let ?s' = "s\<lparr>heap := (heap s)(a := (heap s a)\<lparr>visited := True\<rparr>)\<rparr>"
  have "links (heap ?s') (head s # xs @ [tail s]) = links (heap s) (head s # xs @ [tail s])"
    by (rule links_frame) auto
  then have "sieve_wf ?s' xs" using wf by (auto simp: sieve_wf_def)
  moreover have "hand_ok ?s' xs" using ho by (auto simp: hand_ok_def split: option.splits)
  ultimately have "sieve_inv ?s'" using c by (auto simp: sieve_inv_def)
  then show ?thesis using Some by (simp add: sieve_Get_def)
qed

lemma sieve_Insert_inv:
  assumes "sieve_inv s"
  shows "\<exists>s'. sieve_Insert zk s k d = Some (Inr s') \<and> sieve_inv s'"
proof -
  from assms obtain xs where c: "0 < Capacity s" and wf: "sieve_wf s xs" and ho: "hand_ok s xs"
    by (auto simp: sieve_inv_def)
  show ?thesis
  proof (cases "int (card (dom (Nodes s))) = Capacity s")
    case True
    from sieve_Insert_full_core[OF wf ho True c, of zk k d] obtain s' v where
      "sieve_Insert zk s k d = Some (Inr s')" "Capacity s' = Capacity s"
      "sieve_wf s' (free s # remove1 v xs)" "hand_ok s' (free s # remove1 v xs)"
      by blast
    then show ?thesis using c by (auto simp: sieve_inv_def)
  next
    case False
    from link_block_wf[OF wf, of zk k d] obtain s' where
      lb: "link_block zk s k d = Inr s'" and wf': "sieve_wf s' (free s # xs)"
      and h: "hand s' = hand s" "head s' = head s" and c': "Capacity s' = Capacity s"
      by blast
    have "hand_ok s' (free s # xs)" by (rule hand_ok_link[OF wf ho h])
    with wf' c c' have "sieve_inv s'" by (auto simp: sieve_inv_def)
    moreover have "sieve_Insert zk s k d = Some (Inr s')"
      using False lb by (simp add: sieve_Insert_def)
    ultimately show ?thesis by blast
  qed
qed

lemma sieve_run_inv:
  "sieve_inv s \<Longrightarrow> \<exists>s'. sieve_run zk s ops = Some (Inr s') \<and> sieve_inv s'"
proof (induction ops arbitrary: s)
  case Nil
  then show ?case by simp
next
  case (Cons op ops)
  show ?case
  proof (cases op)
    case (SInsert k d)
    from sieve_Insert_inv[OF Cons.prems, of zk k d] obtain s1 where
      i: "sieve_Insert zk s k d = Some (Inr s1)" and v: "sieve_inv s1" by blast
    from Cons.IH[OF v] show ?thesis using SInsert i by simp
  next
    case (SGet k)
    from Cons.IH[OF sieve_Get_inv[OF Cons.prems, of k]] show ?thesis using SGet by simp
  qed
qed



text \<open>
  The index of SIEVE can also outgrow the capacity (claim C1).  After a key is inserted
  twice below capacity its old node stays linked; when the sweep later reaches that node
  after the key has left the index, \<open>delete\<close> removes nothing and the insertion adds a
  key.  With capacity 2 this run ends with three keys in the index.
\<close>

lemma sieve_capacity_exceeded:
  "\<exists>s0 s1.
     NewSieve [] 2 = Inr (s0 :: (string, nat) Sieve)
     \<and> sieve_run [] s0 [SInsert ''a'' None, SInsert ''a'' None, SInsert ''b'' None,
          SInsert ''c'' None, SInsert ''d'' None, SInsert ''e'' None, SInsert ''f'' None]
        = Some (Inr s1)
     \<and> dom (Nodes s1) = {''c'', ''e'', ''f''} \<and> Capacity s1 = 2"
  by (simp add: sieve_defs sweep.simps) auto

end
